theory Spec2Isabelle
  imports Main
begin

section \<open>The element type \<open>T\<close>\<close>

text \<open>
  \<open>Vector<T>\<close> is generic in its element type. What the container needs of \<open>T\<close> is
  collected in a record: the two type traits that \<open>CopyOrMove\<close> tests at compile time,
  the value that \<open>T()\<close> builds (\<open>None\<close> when the default constructor throws), and, for each
  of the copy and move operations, the values of the source operand on which the
  operation throws. A copy leaves its source as it is and makes the target equal to it;
  a move makes the target equal to the old source and leaves the source in the
  moved-from state \<open>moved_from x\<close>.
\<close>

record 'a elem_type =
  nothrow_move_constructible :: bool
  copy_constructible :: bool
  default_ctor :: "'a option"
  copy_ctor_throws :: "'a \<Rightarrow> bool"
  move_ctor_throws :: "'a \<Rightarrow> bool"
  copy_assign_throws :: "'a \<Rightarrow> bool"
  move_assign_throws :: "'a \<Rightarrow> bool"
  moved_from :: "'a \<Rightarrow> 'a"

text \<open>
  An operation either returns, or leaves by an exception (with the state it leaves
  behind), or violates a precondition: an \<open>assert\<close> of the source fails, or a slot is
  read that holds no live object, or a slot outside the buffer is addressed.
\<close>

datatype ('r, 's) outcome = Returned 'r | Thrown 's | Violation

section \<open>\<open>RawMemory<T>\<close>\<close>

text \<open>
  A raw buffer of \<open>capacity_\<close> slots. A slot is \<open>None\<close> while it holds no live object and
  \<open>Some x\<close> while an object of value \<open>x\<close> lives in it; the length of the list is
  \<open>capacity_\<close>, and the empty list is the null buffer. The type \<open>size_t\<close> is modelled by
  \<open>nat\<close>: a buffer of \<open>2^63\<close> slots cannot be allocated, so \<open>Capacity() * 2\<close> does not wrap.
\<close>

type_synonym 'a RawMemory = "'a option list"

definition RawMemory_new :: "nat \<Rightarrow> 'a RawMemory" where
  "RawMemory_new count = replicate count None"

definition slot_at :: "'a RawMemory \<Rightarrow> nat \<Rightarrow> 'a option" where
  "slot_at m i = (if i < length m then m ! i else None)"

section \<open>The library algorithms the container calls\<close>

text \<open>
  \<open>std::destroy_n(first + off, n)\<close>: the destructor runs on \<open>n\<close> slots from \<open>off\<close> on, which
  hold no live object afterwards. \<open>std::destroy_at\<close> is the case \<open>n = 1\<close>.
\<close>

definition destroy_n :: "'a RawMemory \<Rightarrow> nat \<Rightarrow> nat \<Rightarrow> 'a RawMemory" where
  "destroy_n m off n =
     map (\<lambda>i. if off \<le> i \<and> i < off + n then None else m ! i) [0..<length m]"

definition destroy_at :: "'a RawMemory \<Rightarrow> nat \<Rightarrow> 'a RawMemory" where
  "destroy_at m off = destroy_n m off 1"

text \<open>
  \<open>std::uninitialized_copy_n\<close> and \<open>std::uninitialized_move_n\<close> are one loop: construct
  the target slot \<open>d\<close> from the source slot \<open>s\<close>, then advance both. They differ in the
  constructor that runs (\<open>thr\<close>: the source values it throws on) and in what it leaves in
  the source (\<open>leave\<close>). When a constructor throws, the objects this call has built, in
  slots \<open>d0\<close> up to \<open>d\<close>, are destroyed and the exception goes on. Source and target are
  different buffers at every call in the container.
\<close>

fun uninitialized_loop ::
  "('a \<Rightarrow> bool) \<Rightarrow> ('a \<Rightarrow> 'a) \<Rightarrow> 'a RawMemory \<Rightarrow> nat \<Rightarrow> 'a RawMemory \<Rightarrow> nat \<Rightarrow> nat \<Rightarrow> nat
     \<Rightarrow> ('a RawMemory \<times> 'a RawMemory, 'a RawMemory \<times> 'a RawMemory) outcome" where
  "uninitialized_loop thr leave src s dst d0 d 0 = Returned (src, dst)"
| "uninitialized_loop thr leave src s dst d0 d (Suc k) =
     (case slot_at src s of
        None \<Rightarrow> Violation
      | Some x \<Rightarrow>
          if length dst \<le> d then Violation
          else if thr x then Thrown (src, destroy_n dst d0 (d - d0))
          else uninitialized_loop thr leave (src[s := Some (leave x)]) (Suc s)
                 (dst[d := Some x]) d0 (Suc d) k)"

definition uninitialized_copy_n ::
  "'a elem_type \<Rightarrow> 'a RawMemory \<Rightarrow> nat \<Rightarrow> nat \<Rightarrow> 'a RawMemory \<Rightarrow> nat
     \<Rightarrow> ('a RawMemory \<times> 'a RawMemory, 'a RawMemory \<times> 'a RawMemory) outcome" where
  "uninitialized_copy_n T src s count dst d =
     uninitialized_loop (copy_ctor_throws T) (\<lambda>x. x) src s dst d d count"

definition uninitialized_move_n ::
  "'a elem_type \<Rightarrow> 'a RawMemory \<Rightarrow> nat \<Rightarrow> nat \<Rightarrow> 'a RawMemory \<Rightarrow> nat
     \<Rightarrow> ('a RawMemory \<times> 'a RawMemory, 'a RawMemory \<times> 'a RawMemory) outcome" where
  "uninitialized_move_n T src s count dst d =
     uninitialized_loop (move_ctor_throws T) (moved_from T) src s dst d d count"

text \<open>
  \<open>std::uninitialized_default_construct_n\<close> and \<open>std::uninitialized_value_construct_n\<close>:
  \<open>count\<close> objects are built by \<open>T()\<close> from slot \<open>d\<close> on, with the same clean-up when the
  constructor throws.
\<close>

fun uninitialized_construct_loop ::
  "'a option \<Rightarrow> 'a RawMemory \<Rightarrow> nat \<Rightarrow> nat \<Rightarrow> nat \<Rightarrow> ('a RawMemory, 'a RawMemory) outcome" where
  "uninitialized_construct_loop c dst d0 d 0 = Returned dst"
| "uninitialized_construct_loop c dst d0 d (Suc k) =
     (if length dst \<le> d then Violation
      else case c of
        None \<Rightarrow> Thrown (destroy_n dst d0 (d - d0))
      | Some x \<Rightarrow> uninitialized_construct_loop c (dst[d := Some x]) d0 (Suc d) k)"

definition uninitialized_default_construct_n ::
  "'a elem_type \<Rightarrow> 'a RawMemory \<Rightarrow> nat \<Rightarrow> nat \<Rightarrow> ('a RawMemory, 'a RawMemory) outcome" where
  "uninitialized_default_construct_n T dst d count =
     uninitialized_construct_loop (default_ctor T) dst d d count"

definition uninitialized_value_construct_n ::
  "'a elem_type \<Rightarrow> 'a RawMemory \<Rightarrow> nat \<Rightarrow> nat \<Rightarrow> ('a RawMemory, 'a RawMemory) outcome" where
  "uninitialized_value_construct_n T dst d count =
     uninitialized_construct_loop (default_ctor T) dst d d count"

text \<open>
  \<open>std::copy(first, last, d_first)\<close> from another vector's buffer: copy assignment,
  front to back. Both slots hold live objects. A throwing assignment leaves the target
  slot as it was and nothing is undone.
\<close>

fun copy_loop ::
  "'a elem_type \<Rightarrow> 'a RawMemory \<Rightarrow> nat \<Rightarrow> 'a RawMemory \<Rightarrow> nat \<Rightarrow> nat
     \<Rightarrow> ('a RawMemory, 'a RawMemory) outcome" where
  "copy_loop T src s dst d 0 = Returned dst"
| "copy_loop T src s dst d (Suc k) =
     (case slot_at src s of
        None \<Rightarrow> Violation
      | Some x \<Rightarrow>
          (case slot_at dst d of
             None \<Rightarrow> Violation
           | Some y \<Rightarrow>
               if copy_assign_throws T x then Thrown dst
               else copy_loop T src (Suc s) (dst[d := Some x]) (Suc d) k))"

definition std_copy ::
  "'a elem_type \<Rightarrow> 'a RawMemory \<Rightarrow> nat \<Rightarrow> nat \<Rightarrow> 'a RawMemory \<Rightarrow> nat
     \<Rightarrow> ('a RawMemory, 'a RawMemory) outcome" where
  "std_copy T src first lst dst d_first =
     (if lst < first then Violation else copy_loop T src first dst d_first (lst - first))"

text \<open>
  \<open>std::move(first, last, d_first)\<close> inside one buffer: move assignment, front to
  back; the source slot keeps a moved-from object.
\<close>

fun move_loop ::
  "'a elem_type \<Rightarrow> 'a RawMemory \<Rightarrow> nat \<Rightarrow> nat \<Rightarrow> nat \<Rightarrow> ('a RawMemory, 'a RawMemory) outcome" where
  "move_loop T m s d 0 = Returned m"
| "move_loop T m s d (Suc k) =
     (case slot_at m s of
        None \<Rightarrow> Violation
      | Some x \<Rightarrow>
          (case slot_at m d of
             None \<Rightarrow> Violation
           | Some y \<Rightarrow>
               if move_assign_throws T x then Thrown m
               else move_loop T (m[d := Some x, s := Some (moved_from T x)]) (Suc s) (Suc d) k))"

definition std_move ::
  "'a elem_type \<Rightarrow> 'a RawMemory \<Rightarrow> nat \<Rightarrow> nat \<Rightarrow> nat \<Rightarrow> ('a RawMemory, 'a RawMemory) outcome" where
  "std_move T m first lst d_first =
     (if lst < first then Violation else move_loop T m first d_first (lst - first))"

text \<open>
  \<open>std::move_backward(first, last, d_last)\<close> inside one buffer: move assignment, back
  to front: \<open>*--d_last = std::move(*--last)\<close> while \<open>last \<noteq> first\<close> (\<open>lst\<close> stands for \<open>last\<close>).
\<close>

fun move_backward_loop ::
  "'a elem_type \<Rightarrow> 'a RawMemory \<Rightarrow> nat \<Rightarrow> nat \<Rightarrow> nat \<Rightarrow> ('a RawMemory, 'a RawMemory) outcome" where
  "move_backward_loop T m lst d_last 0 = Returned m"
| "move_backward_loop T m lst d_last (Suc k) =
     (if lst = 0 \<or> d_last = 0 then Violation
      else case slot_at m (lst - 1) of
        None \<Rightarrow> Violation
      | Some x \<Rightarrow>
          (case slot_at m (d_last - 1) of
             None \<Rightarrow> Violation
           | Some y \<Rightarrow>
               if move_assign_throws T x then Thrown m
               else move_backward_loop T
                      (m[d_last - 1 := Some x, lst - 1 := Some (moved_from T x)])
                      (lst - 1) (d_last - 1) k))"

definition std_move_backward ::
  "'a elem_type \<Rightarrow> 'a RawMemory \<Rightarrow> nat \<Rightarrow> nat \<Rightarrow> nat \<Rightarrow> ('a RawMemory, 'a RawMemory) outcome" where
  "std_move_backward T m first lst d_last =
     (if lst < first then Violation else move_backward_loop T m lst d_last (lst - first))"

section \<open>\<open>Vector<T>\<close> (\<open>advanced-vector/vector.h\<close>)\<close>

text \<open>
  The two members of the class: the raw buffer \<open>data_\<close> and the number \<open>size_\<close> of live
  elements. Iterators are offsets into the buffer: \<open>begin()\<close> is offset \<open>0\<close> and \<open>end()\<close>
  is offset \<open>size_\<close>, and an operation that takes an iterator takes the offset
  \<open>pos - begin()\<close>. The iterator an operation returns is left out.
\<close>

record 'a Vector =
  v_data :: "'a RawMemory"
  v_size :: nat

definition Capacity :: "'a Vector \<Rightarrow> nat" where
  "Capacity v = length (v_data v)"

definition Size :: "'a Vector \<Rightarrow> nat" where
  "Size v = v_size v"

text \<open>The elements a client sees: the values in slots \<open>0\<close> up to \<open>size_\<close>, in order.\<close>

definition elems :: "'a Vector \<Rightarrow> 'a list" where
  "elems v = map the (take (v_size v) (v_data v))"

text \<open>
  The class invariant of the data model: the live objects are exactly those in the
  first \<open>size_\<close> slots.
\<close>

definition wf_Vector :: "'a Vector \<Rightarrow> bool" where
  "wf_Vector v = (v_size v \<le> length (v_data v) \<and>
           list_all (\<lambda>s. s \<noteq> None) (take (v_size v) (v_data v)) \<and>
           list_all (\<lambda>s. s = None) (drop (v_size v) (v_data v)))"

subsection \<open>Construction\<close>

definition Vector_default :: "'a Vector" where
  "Vector_default = \<lparr>v_data = [], v_size = 0\<rparr>"

definition Vector_sized :: "'a elem_type \<Rightarrow> nat \<Rightarrow> ('a Vector, unit) outcome" where
  "Vector_sized T count =
     (case uninitialized_value_construct_n T (RawMemory_new count) 0 count of
        Returned m \<Rightarrow> Returned \<lparr>v_data = m, v_size = count\<rparr>
      | Thrown _ \<Rightarrow> Thrown ()
      | Violation \<Rightarrow> Violation)"

definition Vector_copy :: "'a elem_type \<Rightarrow> 'a Vector \<Rightarrow> ('a Vector, unit) outcome" where
  "Vector_copy T other =
     (case uninitialized_copy_n T (v_data other) 0 (v_size other)
             (RawMemory_new (v_size other)) 0 of
        Returned (_, m) \<Rightarrow> Returned \<lparr>v_data = m, v_size = v_size other\<rparr>
      | Thrown _ \<Rightarrow> Thrown ()
      | Violation \<Rightarrow> Violation)"

text \<open>
  The move constructor takes the buffer and the size and leaves \<open>other\<close> with the null
  buffer and size \<open>0\<close>. The result is the pair of the new object and \<open>other\<close> afterwards.
\<close>

definition Vector_move :: "'a Vector \<Rightarrow> 'a Vector \<times> 'a Vector" where
  "Vector_move other =
     (\<lparr>v_data = v_data other, v_size = v_size other\<rparr>, \<lparr>v_data = [], v_size = 0\<rparr>)"

subsection \<open>Relocation and capacity\<close>

definition CopyOrMove ::
  "'a elem_type \<Rightarrow> 'a RawMemory \<Rightarrow> nat \<Rightarrow> 'a RawMemory \<Rightarrow> nat \<Rightarrow> nat
     \<Rightarrow> ('a RawMemory \<times> 'a RawMemory, 'a RawMemory \<times> 'a RawMemory) outcome" where
  "CopyOrMove T src s dst d count =
     (if nothrow_move_constructible T \<or> \<not> copy_constructible T
      then uninitialized_move_n T src s count dst d
      else uninitialized_copy_n T src s count dst d)"

text \<open>
  \<open>Reserve\<close>: after the relocation the old objects are destroyed, the buffers are
  swapped, and the old buffer goes away with the local \<open>new_data\<close>. When the relocation
  throws, the new buffer goes away and the vector keeps its buffer, whose objects a
  throwing move may have left moved-from.
\<close>

definition Reserve :: "'a elem_type \<Rightarrow> nat \<Rightarrow> 'a Vector \<Rightarrow> ('a Vector, 'a Vector) outcome" where
  "Reserve T new_capacity v =
     (if new_capacity \<le> Capacity v then Returned v
      else case CopyOrMove T (v_data v) 0 (RawMemory_new new_capacity) 0 (v_size v) of
        Returned (old, new_data) \<Rightarrow> Returned (v\<lparr>v_data := new_data\<rparr>)
      | Thrown (old, new_data) \<Rightarrow> Thrown (v\<lparr>v_data := old\<rparr>)
      | Violation \<Rightarrow> Violation)"

definition Resize :: "'a elem_type \<Rightarrow> nat \<Rightarrow> 'a Vector \<Rightarrow> ('a Vector, 'a Vector) outcome" where
  "Resize T new_size v =
     (if Capacity v > new_size then
        (if new_size < v_size v then
           Returned (v\<lparr>v_data := destroy_n (v_data v) new_size (v_size v - new_size),
                       v_size := new_size\<rparr>)
         else if new_size > v_size v then
           (case uninitialized_default_construct_n T (v_data v) (v_size v)
                   (new_size - v_size v) of
              Returned m \<Rightarrow> Returned (v\<lparr>v_data := m, v_size := new_size\<rparr>)
            | Thrown m \<Rightarrow> Thrown (v\<lparr>v_data := m\<rparr>)
            | Violation \<Rightarrow> Violation)
         else Returned (v\<lparr>v_size := new_size\<rparr>))
      else if Capacity v < new_size then
        (case Reserve T new_size v of
           Returned v1 \<Rightarrow>
             (case uninitialized_default_construct_n T (v_data v1) (v_size v1)
                     (new_size - v_size v1) of
                Returned m \<Rightarrow> Returned (v1\<lparr>v_data := m, v_size := new_size\<rparr>)
              | Thrown m \<Rightarrow> Thrown (v1\<lparr>v_data := m\<rparr>)
              | Violation \<Rightarrow> Violation)
         | Thrown v1 \<Rightarrow> Thrown v1
         | Violation \<Rightarrow> Violation)
      else Returned (v\<lparr>v_size := new_size\<rparr>))"

definition PopBack :: "'a Vector \<Rightarrow> ('a Vector, 'a Vector) outcome" where
  "PopBack v =
     (if \<not> v_size v > 0 then Violation
      else Returned (v\<lparr>v_data := destroy_at (v_data v) (v_size v - 1),
                       v_size := v_size v - 1\<rparr>))"

subsection \<open>Insertion\<close>

text \<open>
  The constructor arguments of \<open>Emplace\<close> are modelled by what \<open>T(args...)\<close> gives:
  \<open>Some x\<close> for the value built, \<open>None\<close> when the constructor throws. An exception that
  leaves \<open>Emplace\<close> carries the state of the vector and the offsets into its buffer that
  a handler has passed to \<open>operator delete\<close> on the way. \<open>operator delete\<close> takes raw memory
  back: it runs no destructor and writes neither \<open>data_\<close> nor \<open>size_\<close>. The model follows
  the objects in the slots and not the allocator, so a call of \<open>operator delete\<close> is
  recorded and what the allocator does with the address is left open; an offset other
  than \<open>0\<close> is not the start of a block that \<open>operator new\<close> returned.
\<close>

definition EmplaceWithAllocate ::
  "'a elem_type \<Rightarrow> nat \<Rightarrow> 'a option \<Rightarrow> 'a Vector \<Rightarrow> ('a Vector, 'a Vector \<times> nat list) outcome" where
  "EmplaceWithAllocate T position arg v =
     (if v_size v = 0 then
        (case arg of
           None \<Rightarrow> Thrown (v, [])
         | Some x \<Rightarrow> Returned (v\<lparr>v_data := (RawMemory_new (v_size v + 1))[0 := Some x]\<rparr>))
      else if Capacity v * 2 < position then Violation
      else
        (case arg of
           None \<Rightarrow> Thrown (v, [])
         | Some x \<Rightarrow>
             if \<not> position < Capacity v * 2 then Violation
             else
               (case CopyOrMove T (v_data v) 0
                       ((RawMemory_new (Capacity v * 2))[position := Some x]) 0 position of
                  Violation \<Rightarrow> Violation
                | Thrown (old, temp) \<Rightarrow> Thrown (v\<lparr>v_data := old\<rparr>, [])
                | Returned (old, temp) \<Rightarrow>
                    if Capacity v < position then Violation
                    else
                      (case CopyOrMove T old position temp (position + 1)
                              (v_size v - position) of
                         Violation \<Rightarrow> Violation
                       | Thrown (old', temp') \<Rightarrow> Thrown (v\<lparr>v_data := old'\<rparr>, [])
                       | Returned (old', temp') \<Rightarrow> Returned (v\<lparr>v_data := temp'\<rparr>)))))"

text \<open>
  The body of the \<open>try\<close> block of \<open>EmplaceWithoutAllocate\<close>: the temporary \<open>new_elem\<close>,
  the move construction of the last element into slot \<open>size_\<close>, the backward shift, and
  the move assignment of the temporary into slot \<open>position\<close>.
\<close>

definition EmplaceWithoutAllocate_try ::
  "'a elem_type \<Rightarrow> nat \<Rightarrow> 'a option \<Rightarrow> 'a Vector \<Rightarrow> ('a Vector, 'a Vector) outcome" where
  "EmplaceWithoutAllocate_try T position arg v =
     (case arg of
        None \<Rightarrow> Thrown v
      | Some new_elem \<Rightarrow>
          if Capacity v < v_size v \<or> \<not> v_size v - 1 < Capacity v then Violation
          else
            (case slot_at (v_data v) (v_size v - 1) of
               None \<Rightarrow> Violation
             | Some y \<Rightarrow>
                 if \<not> v_size v < Capacity v then Violation
                 else if move_ctor_throws T y then Thrown v
                 else
                   (case std_move_backward T
                           ((v_data v)[v_size v := Some y, v_size v - 1 := Some (moved_from T y)])
                           position (v_size v - 1) (v_size v) of
                      Violation \<Rightarrow> Violation
                    | Thrown m \<Rightarrow> Thrown (v\<lparr>v_data := m\<rparr>)
                    | Returned m \<Rightarrow>
                        (case slot_at m position of
                           None \<Rightarrow> Violation
                         | Some z \<Rightarrow>
                             if move_assign_throws T new_elem then Thrown (v\<lparr>v_data := m\<rparr>)
                             else Returned (v\<lparr>v_data := m[position := Some new_elem]\<rparr>)))))"

definition EmplaceWithoutAllocate ::
  "'a elem_type \<Rightarrow> nat \<Rightarrow> 'a option \<Rightarrow> 'a Vector \<Rightarrow> ('a Vector, 'a Vector \<times> nat list) outcome" where
  "EmplaceWithoutAllocate T position arg v =
     (if position < v_size v then
        (case EmplaceWithoutAllocate_try T position arg v of
           Returned v' \<Rightarrow> Returned v'
         | Thrown v' \<Rightarrow> Thrown (v', [v_size v'])
         | Violation \<Rightarrow> Violation)
      else
        (if Capacity v < v_size v then Violation
         else case arg of
           None \<Rightarrow> Thrown (v, [])
         | Some x \<Rightarrow>
             if \<not> v_size v < Capacity v then Violation
             else Returned (v\<lparr>v_data := (v_data v)[v_size v := Some x]\<rparr>)))"

definition Emplace ::
  "'a elem_type \<Rightarrow> nat \<Rightarrow> 'a option \<Rightarrow> 'a Vector \<Rightarrow> ('a Vector, 'a Vector \<times> nat list) outcome" where
  "Emplace T position arg v =
     (case (if v_size v = Capacity v then EmplaceWithAllocate T position arg v
            else EmplaceWithoutAllocate T position arg v) of
        Returned v' \<Rightarrow> Returned (v'\<lparr>v_size := v_size v' + 1\<rparr>)
      | Thrown e \<Rightarrow> Thrown e
      | Violation \<Rightarrow> Violation)"

definition PushBack ::
  "'a elem_type \<Rightarrow> 'a option \<Rightarrow> 'a Vector \<Rightarrow> ('a Vector, 'a Vector \<times> nat list) outcome" where
  "PushBack T elem v = Emplace T (v_size v) elem v"

definition EmplaceBack ::
  "'a elem_type \<Rightarrow> 'a option \<Rightarrow> 'a Vector \<Rightarrow> ('a Vector, 'a Vector \<times> nat list) outcome" where
  "EmplaceBack T arg v = Emplace T (v_size v) arg v"

text \<open>
  The two overloads of \<open>Insert\<close> build the new element by the copy and by the move
  constructor of \<open>T\<close>.
\<close>

definition Insert_copy ::
  "'a elem_type \<Rightarrow> nat \<Rightarrow> 'a \<Rightarrow> 'a Vector \<Rightarrow> ('a Vector, 'a Vector \<times> nat list) outcome" where
  "Insert_copy T position elem v =
     Emplace T position (if copy_ctor_throws T elem then None else Some elem) v"

definition Insert_move ::
  "'a elem_type \<Rightarrow> nat \<Rightarrow> 'a \<Rightarrow> 'a Vector \<Rightarrow> ('a Vector, 'a Vector \<times> nat list) outcome" where
  "Insert_move T position elem v =
     Emplace T position (if move_ctor_throws T elem then None else Some elem) v"

subsection \<open>Removal, swap and assignment\<close>

definition Erase :: "'a elem_type \<Rightarrow> nat \<Rightarrow> 'a Vector \<Rightarrow> ('a Vector, 'a Vector) outcome" where
  "Erase T position v =
     (if \<not> position < v_size v then Violation
      else if position = v_size v then
        Returned (v\<lparr>v_data := destroy_at (v_data v) (v_size v - 1), v_size := v_size v - 1\<rparr>)
      else
        (case std_move T (v_data v) (position + 1) (v_size v) position of
           Returned m \<Rightarrow>
             Returned (v\<lparr>v_data := destroy_at m (v_size v - 1), v_size := v_size v - 1\<rparr>)
         | Thrown m \<Rightarrow> Thrown (v\<lparr>v_data := m\<rparr>)
         | Violation \<Rightarrow> Violation))"

text \<open>\<open>Swap\<close> on two different objects: the pair is \<open>*this\<close> and \<open>other\<close> afterwards.\<close>

definition Swap :: "'a Vector \<Rightarrow> 'a Vector \<Rightarrow> 'a Vector \<times> 'a Vector" where
  "Swap this other =
     (this\<lparr>v_data := v_data other, v_size := v_size other\<rparr>,
      other\<lparr>v_data := v_data this, v_size := v_size this\<rparr>)"

text \<open>
  The assignment operators compare the addresses of their operands, so they are
  modelled on a store of vector objects, with \<open>this\<close> and \<open>other\<close> the addresses. In the
  copy-and-swap branch the local \<open>temp\<close> takes the old buffer of \<open>*this\<close> away with it.
  Move assignment overwrites \<open>data_\<close> by \<open>RawMemory\<close>'s move assignment, which takes the
  buffer of \<open>other\<close> and leaves it the null buffer.
\<close>

type_synonym 'a store = "nat \<Rightarrow> 'a Vector"

definition assign_copy ::
  "'a elem_type \<Rightarrow> 'a store \<Rightarrow> nat \<Rightarrow> nat \<Rightarrow> ('a store, 'a store) outcome" where
  "assign_copy T st this other =
     (if this \<noteq> other then
        (if Capacity (st this) < v_size (st other) then
           (case Vector_copy T (st other) of
              Returned temp \<Rightarrow> Returned (st(this := fst (Swap (st this) temp)))
            | Thrown _ \<Rightarrow> Thrown st
            | Violation \<Rightarrow> Violation)
         else if v_size (st this) < v_size (st other) then
           (case std_copy T (v_data (st other)) 0 (v_size (st this)) (v_data (st this)) 0 of
              Returned m \<Rightarrow>
                (case uninitialized_copy_n T (v_data (st other)) (v_size (st this))
                        (v_size (st other) - v_size (st this)) m (v_size (st this)) of
                   Returned (_, m') \<Rightarrow>
                     Returned (st(this := (st this)\<lparr>v_data := m', v_size := v_size (st other)\<rparr>))
                 | Thrown (_, m') \<Rightarrow> Thrown (st(this := (st this)\<lparr>v_data := m'\<rparr>))
                 | Violation \<Rightarrow> Violation)
            | Thrown m \<Rightarrow> Thrown (st(this := (st this)\<lparr>v_data := m\<rparr>))
            | Violation \<Rightarrow> Violation)
         else
           (case std_copy T (v_data (st other)) 0 (v_size (st other)) (v_data (st this)) 0 of
              Returned m \<Rightarrow>
                Returned (st(this := (st this)
                  \<lparr>v_data := destroy_n m (v_size (st other)) (v_size (st this) - v_size (st other)),
                   v_size := v_size (st other)\<rparr>))
            | Thrown m \<Rightarrow> Thrown (st(this := (st this)\<lparr>v_data := m\<rparr>))
            | Violation \<Rightarrow> Violation))
      else Returned st)"

definition assign_move :: "'a store \<Rightarrow> nat \<Rightarrow> nat \<Rightarrow> 'a store" where
  "assign_move st this other =
     (if this \<noteq> other then
        st(this := (st this)\<lparr>v_data := v_data (st other), v_size := v_size (st other)\<rparr>,
           other := (st other)\<lparr>v_data := [], v_size := 0\<rparr>)
      else st)"

section \<open>The other revision of the class (\<open>unnamed/part_000\<close>)\<close>

text \<open>
  The second source file is the same class with \<open>CopyOrMove\<close>, \<open>EmplaceWithAllocate\<close> and
  \<open>EmplaceWithoutAllocate\<close> written out at each place of use. \<open>Reserve\<close> and the
  assignment operators read as in \<open>vector.h\<close>. The copy constructor selects
  \<open>std::uninitialized_move_n\<close> for some element types, but on the buffer of a \<open>const\<close>
  source, where \<open>std::move\<close> gives a \<open>const\<close> rvalue and the copy constructor of \<open>T\<close>
  runs: it copies, as \<open>Vector_copy\<close> does. The functions that differ are modelled
  here, with the suffix \<open>_p0\<close>: \<open>Resize\<close> sets \<open>size_\<close> inside each branch, \<open>PushBack\<close> and
  \<open>EmplaceBack\<close> have bodies of their own, and \<open>Emplace\<close> tests \<open>pos != end()\<close> and has
  the append inside its \<open>try\<close> block.
\<close>

definition Resize_p0 :: "'a elem_type \<Rightarrow> nat \<Rightarrow> 'a Vector \<Rightarrow> ('a Vector, 'a Vector) outcome" where
  "Resize_p0 T new_size v =
     (if Capacity v > new_size then
        (if new_size < v_size v then
           Returned (v\<lparr>v_data := destroy_n (v_data v) new_size (v_size v - new_size),
                       v_size := new_size\<rparr>)
         else if new_size > v_size v then
           (case uninitialized_default_construct_n T (v_data v) (v_size v)
                   (new_size - v_size v) of
              Returned m \<Rightarrow> Returned (v\<lparr>v_data := m, v_size := new_size\<rparr>)
            | Thrown m \<Rightarrow> Thrown (v\<lparr>v_data := m\<rparr>)
            | Violation \<Rightarrow> Violation)
         else Returned v)
      else if Capacity v < new_size then
        (case Reserve T new_size v of
           Returned v1 \<Rightarrow>
             (case uninitialized_default_construct_n T (v_data v1) (v_size v1)
                     (new_size - v_size v1) of
                Returned m \<Rightarrow> Returned (v1\<lparr>v_data := m, v_size := new_size\<rparr>)
              | Thrown m \<Rightarrow> Thrown (v1\<lparr>v_data := m\<rparr>)
              | Violation \<Rightarrow> Violation)
         | Thrown v1 \<Rightarrow> Thrown v1
         | Violation \<Rightarrow> Violation)
      else Returned v)"

definition PushBack_p0 ::
  "'a elem_type \<Rightarrow> 'a option \<Rightarrow> 'a Vector \<Rightarrow> ('a Vector, 'a Vector \<times> nat list) outcome" where
  "PushBack_p0 T elem v =
     (if Capacity v = v_size v then
        (if v_size v = 0 then
           (case elem of
              None \<Rightarrow> Thrown (v, [])
            | Some x \<Rightarrow>
                Returned (v\<lparr>v_data := (RawMemory_new (v_size v + 1))[0 := Some x],
                            v_size := v_size v + 1\<rparr>))
         else
           (case elem of
              None \<Rightarrow> Thrown (v, [])
            | Some x \<Rightarrow>
                if \<not> v_size v < Capacity v * 2 then Violation
                else
                  (case (if nothrow_move_constructible T \<or> \<not> copy_constructible T
                         then uninitialized_move_n T (v_data v) 0 (v_size v)
                                ((RawMemory_new (Capacity v * 2))[v_size v := Some x]) 0
                         else uninitialized_copy_n T (v_data v) 0 (v_size v)
                                ((RawMemory_new (Capacity v * 2))[v_size v := Some x]) 0) of
                     Violation \<Rightarrow> Violation
                   | Thrown (old, temp) \<Rightarrow> Thrown (v\<lparr>v_data := old\<rparr>, [])
                   | Returned (old, temp) \<Rightarrow>
                       Returned (v\<lparr>v_data := temp, v_size := v_size v + 1\<rparr>))))
      else
        (case elem of
           None \<Rightarrow> Thrown (v, [])
         | Some x \<Rightarrow>
             if \<not> v_size v < Capacity v then Violation
             else Returned (v\<lparr>v_data := (v_data v)[v_size v := Some x], v_size := v_size v + 1\<rparr>)))"

definition EmplaceBack_p0 ::
  "'a elem_type \<Rightarrow> 'a option \<Rightarrow> 'a Vector \<Rightarrow> ('a Vector, 'a Vector \<times> nat list) outcome" where
  "EmplaceBack_p0 T arg v =
     (if Capacity v = v_size v then
        (if v_size v = 0 then
           (case arg of
              None \<Rightarrow> Thrown (v, [])
            | Some x \<Rightarrow>
                Returned (v\<lparr>v_data := (RawMemory_new (v_size v + 1))[0 := Some x],
                            v_size := v_size v + 1\<rparr>))
         else
           (case arg of
              None \<Rightarrow> Thrown (v, [])
            | Some x \<Rightarrow>
                if \<not> v_size v < Capacity v * 2 then Violation
                else
                  (case (if nothrow_move_constructible T \<or> \<not> copy_constructible T
                         then uninitialized_move_n T (v_data v) 0 (v_size v)
                                ((RawMemory_new (Capacity v * 2))[v_size v := Some x]) 0
                         else uninitialized_copy_n T (v_data v) 0 (v_size v)
                                ((RawMemory_new (Capacity v * 2))[v_size v := Some x]) 0) of
                     Violation \<Rightarrow> Violation
                   | Thrown (old, temp) \<Rightarrow> Thrown (v\<lparr>v_data := old\<rparr>, [])
                   | Returned (old, temp) \<Rightarrow>
                       Returned (v\<lparr>v_data := temp, v_size := v_size v + 1\<rparr>))))
      else
        (case arg of
           None \<Rightarrow> Thrown (v, [])
         | Some x \<Rightarrow>
             if \<not> v_size v < Capacity v then Violation
             else Returned (v\<lparr>v_data := (v_data v)[v_size v := Some x], v_size := v_size v + 1\<rparr>)))"

text \<open>
  In \<open>Emplace\<close> of this revision the statements of the mid-array branch are those of
  \<open>EmplaceWithoutAllocate_try\<close>, followed by \<open>++size_\<close>; the handler is the same.
\<close>

definition Emplace_p0 ::
  "'a elem_type \<Rightarrow> nat \<Rightarrow> 'a option \<Rightarrow> 'a Vector \<Rightarrow> ('a Vector, 'a Vector \<times> nat list) outcome" where
  "Emplace_p0 T position arg v =
     (if Capacity v = v_size v then
        (if v_size v = 0 then
           (case arg of
              None \<Rightarrow> Thrown (v, [])
            | Some x \<Rightarrow>
                Returned (v\<lparr>v_data := (RawMemory_new (v_size v + 1))[0 := Some x],
                            v_size := v_size v + 1\<rparr>))
         else if Capacity v * 2 < position then Violation
         else
           (case arg of
              None \<Rightarrow> Thrown (v, [])
            | Some x \<Rightarrow>
                if \<not> position < Capacity v * 2 then Violation
                else if nothrow_move_constructible T \<or> \<not> copy_constructible T then
                  (case uninitialized_move_n T (v_data v) 0 position
                          ((RawMemory_new (Capacity v * 2))[position := Some x]) 0 of
                     Violation \<Rightarrow> Violation
                   | Thrown (old, temp) \<Rightarrow> Thrown (v\<lparr>v_data := old\<rparr>, [])
                   | Returned (old, temp) \<Rightarrow>
                       if Capacity v < position then Violation
                       else
                         (case uninitialized_move_n T old position (v_size v - position)
                                 temp (position + 1) of
                            Violation \<Rightarrow> Violation
                          | Thrown (old', temp') \<Rightarrow> Thrown (v\<lparr>v_data := old'\<rparr>, [])
                          | Returned (old', temp') \<Rightarrow>
                              Returned (v\<lparr>v_data := temp', v_size := v_size v + 1\<rparr>)))
                else
                  (case uninitialized_copy_n T (v_data v) 0 position
                          ((RawMemory_new (Capacity v * 2))[position := Some x]) 0 of
                     Violation \<Rightarrow> Violation
                   | Thrown (old, temp) \<Rightarrow> Thrown (v\<lparr>v_data := old\<rparr>, [])
                   | Returned (old, temp) \<Rightarrow>
                       if Capacity v < position then Violation
                       else
                         (case uninitialized_copy_n T old position (v_size v - position)
                                 temp (position + 1) of
                            Violation \<Rightarrow> Violation
                          | Thrown (old', temp') \<Rightarrow> Thrown (v\<lparr>v_data := old'\<rparr>, [])
                          | Returned (old', temp') \<Rightarrow>
                              Returned (v\<lparr>v_data := temp', v_size := v_size v + 1\<rparr>)))))
      else
        (case (if position \<noteq> v_size v then
                 (case EmplaceWithoutAllocate_try T position arg v of
                    Returned v' \<Rightarrow> Returned (v'\<lparr>v_size := v_size v' + 1\<rparr>)
                  | Thrown v' \<Rightarrow> Thrown v'
                  | Violation \<Rightarrow> Violation)
               else if Capacity v < v_size v then Violation
               else
                 (case arg of
                    None \<Rightarrow> Thrown v
                  | Some x \<Rightarrow>
                      if \<not> v_size v < Capacity v then Violation
                      else Returned (v\<lparr>v_data := (v_data v)[v_size v := Some x],
                                       v_size := v_size v + 1\<rparr>))) of
           Returned v' \<Rightarrow> Returned v'
         | Thrown v' \<Rightarrow> Thrown (v', [v_size v'])
         | Violation \<Rightarrow> Violation))"

section \<open>Predicates used in the statements\<close>

text \<open>
  The constructor that relocation runs on an element, as \<open>CopyOrMove\<close> selects it,
  throws on \<open>x\<close>.
\<close>

definition relocation_throws :: "'a elem_type \<Rightarrow> 'a \<Rightarrow> bool" where
  "relocation_throws T x =
     (if nothrow_move_constructible T \<or> \<not> copy_constructible T
      then move_ctor_throws T x else copy_ctor_throws T x)"

text \<open>The part of the invariant that relates the two members: \<open>size_ \<le> capacity\<close>.\<close>

definition size_le_capacity :: "'a Vector \<Rightarrow> bool" where
  "size_le_capacity v = (v_size v \<le> Capacity v)"

text \<open>
  A property of the state an operation leaves, whether it returns or throws. Nothing is
  said of a call that violates a precondition.
\<close>

definition outcome_all :: "('r \<Rightarrow> bool) \<Rightarrow> ('s \<Rightarrow> bool) \<Rightarrow> ('r, 's) outcome \<Rightarrow> bool" where
  "outcome_all P Q r = (case r of Returned x \<Rightarrow> P x | Thrown y \<Rightarrow> Q y | Violation \<Rightarrow> True)"

text \<open>
  What an insertion of \<open>x\<close> at position \<open>p\<close> that has to grow the buffer leaves: the
  call returns, the capacity has doubled (or is \<open>1\<close> when it was \<open>0\<close>), the size is one
  more, \<open>x\<close> is in slot \<open>p\<close> and the old elements are around it in their order.
\<close>

definition grows_on_insert :: "'a Vector \<Rightarrow> nat \<Rightarrow> 'a \<Rightarrow> ('a Vector, 's) outcome \<Rightarrow> bool" where
  "grows_on_insert v p x r =
     (case r of
        Returned v' \<Rightarrow>
          Capacity v' = (if Capacity v = 0 then 1 else Capacity v * 2) \<and>
          Size v' = Size v + 1 \<and> v_data v' ! p = Some x \<and>
          elems v' = take p (elems v) @ x # drop p (elems v) \<and> wf_Vector v'
      | Thrown e \<Rightarrow> False
      | Violation \<Rightarrow> False)"

text \<open>
  The elements of \<open>other\<close> that copy assignment \<open>*this = other\<close> hands to the copy
  constructor of \<open>T\<close>, and those it hands to the copy assignment of \<open>T\<close>: all and none
  when the capacity of \<open>*this\<close> is too small; otherwise those beyond the size of \<open>*this\<close>,
  and those below it.
\<close>

definition copy_constructed :: "'a store \<Rightarrow> nat \<Rightarrow> nat \<Rightarrow> 'a list" where
  "copy_constructed st this other =
     (if Capacity (st this) < v_size (st other) then elems (st other)
      else drop (v_size (st this)) (elems (st other)))"

definition copy_assigned :: "'a store \<Rightarrow> nat \<Rightarrow> nat \<Rightarrow> 'a list" where
  "copy_assigned st this other =
     (if Capacity (st this) < v_size (st other) then []
      else take (v_size (st this)) (elems (st other)))"

section \<open>Two element types for the examples\<close>

text \<open>
  \<open>sturdy\<close> behaves like a built-in number: nothing throws. \<open>fragile\<close> is a class whose
  copy and move constructors throw on the value \<open>7\<close> and whose move assignment throws on
  the value \<open>1\<close>; its move constructor is not \<open>noexcept\<close>, so relocation copies, and a
  moved-from object holds \<open>0\<close>.
\<close>

definition sturdy :: "nat elem_type" where
  "sturdy = \<lparr>nothrow_move_constructible = True, copy_constructible = True,
             default_ctor = Some 0,
             copy_ctor_throws = (\<lambda>x. False), move_ctor_throws = (\<lambda>x. False),
             copy_assign_throws = (\<lambda>x. False), move_assign_throws = (\<lambda>x. False),
             moved_from = (\<lambda>x. x)\<rparr>"

definition fragile :: "nat elem_type" where
  "fragile = \<lparr>nothrow_move_constructible = False, copy_constructible = True,
              default_ctor = Some 0,
              copy_ctor_throws = (\<lambda>x. x = 7), move_ctor_throws = (\<lambda>x. x = 7),
              copy_assign_throws = (\<lambda>x. False), move_assign_throws = (\<lambda>x. x = 1),
              moved_from = (\<lambda>x. 0)\<rparr>"

section \<open>Facts about the library algorithms\<close>

lemma length_destroy_n: "length (destroy_n m off n) = length m"
  by (simp add: destroy_n_def)

lemma nth_destroy_n:
  "i < length m \<Longrightarrow> destroy_n m off n ! i = (if off \<le> i \<and> i < off + n then None else m ! i)"
  by (simp add: destroy_n_def)

lemma uninitialized_loop_length:
  "uninitialized_loop thr leave src s dst d0 d k = Returned (src', dst') \<or>
   uninitialized_loop thr leave src s dst d0 d k = Thrown (src', dst')
   \<Longrightarrow> length src' = length src \<and> length dst' = length dst"
proof (induction k arbitrary: src s dst d)
  case 0
  then show ?case by auto
next
  case (Suc k)
  then show ?case
    by (auto simp: length_destroy_n split: option.splits if_splits)
qed

lemma uninitialized_loop_Returned:
  assumes "s + k \<le> length src" and "d + k \<le> length dst"
    and "\<forall>j<k. \<exists>x. src ! (s + j) = Some x \<and> \<not> thr x"
  shows "\<exists>src' dst'. uninitialized_loop thr leave src s dst d0 d k = Returned (src', dst') \<and>
           length src' = length src \<and> length dst' = length dst \<and>
           (\<forall>i<length dst. dst' ! i = (if d \<le> i \<and> i < d + k then src ! (s + (i - d)) else dst ! i)) \<and>
           (\<forall>i<length src. src' ! i =
              (if s \<le> i \<and> i < s + k then map_option leave (src ! i) else src ! i))"
  using assms
proof (induction k arbitrary: src s dst d)
  case 0
  then show ?case by auto
next
  case (Suc k)
  from Suc.prems(3) obtain x where x: "src ! s = Some x" "\<not> thr x"
    by (metis add.right_neutral zero_less_Suc)
  let ?src = "src[s := Some (leave x)]"
  let ?dst = "dst[d := Some x]"
  have p3: "\<forall>j<k. \<exists>y. ?src ! (Suc s + j) = Some y \<and> \<not> thr y"
  proof (intro allI impI)
    fix j assume "j < k"
    then obtain y where "src ! (s + Suc j) = Some y \<and> \<not> thr y"
      using Suc.prems(3) by (meson Suc_less_eq)
    then show "\<exists>y. ?src ! (Suc s + j) = Some y \<and> \<not> thr y" by simp
  qed
  from Suc.prems have p1: "Suc s + k \<le> length ?src" and p2: "Suc d + k \<le> length ?dst" by simp_all
  from Suc.IH[OF p1 p2 p3] obtain src' dst' where r:
    "uninitialized_loop thr leave ?src (Suc s) ?dst d0 (Suc d) k = Returned (src', dst')"
    "length src' = length src" "length dst' = length dst"
    "\<forall>i<length dst. dst' ! i = (if Suc d \<le> i \<and> i < Suc d + k then ?src ! (Suc s + (i - Suc d)) else ?dst ! i)"
    "\<forall>i<length src. src' ! i = (if Suc s \<le> i \<and> i < Suc s + k then map_option leave (?src ! i) else ?src ! i)"
    by auto
  have run: "uninitialized_loop thr leave src s dst d0 d (Suc k) = Returned (src', dst')"
    using x r(1) Suc.prems(1,2) by (simp add: slot_at_def)
  have d: "\<forall>i<length dst. dst' ! i = (if d \<le> i \<and> i < d + Suc k then src ! (s + (i - d)) else dst ! i)"
  proof (intro allI impI)
    fix i assume i: "i < length dst"
    show "dst' ! i = (if d \<le> i \<and> i < d + Suc k then src ! (s + (i - d)) else dst ! i)"
    proof (cases "i = d")
      case True
      then show ?thesis using r(4) i x by simp
    next
      case False
      then show ?thesis using r(4) i by (auto simp: Suc_diff_Suc le_Suc_eq)
    qed
  qed
  have s: "\<forall>i<length src. src' ! i = (if s \<le> i \<and> i < s + Suc k then map_option leave (src ! i) else src ! i)"
  proof (intro allI impI)
    fix i assume i: "i < length src"
    show "src' ! i = (if s \<le> i \<and> i < s + Suc k then map_option leave (src ! i) else src ! i)"
    proof (cases "i = s")
      case True
      then show ?thesis using r(5) i x by simp
    next
      case False
      then show ?thesis using r(5) i by (auto simp: le_Suc_eq)
    qed
  qed
  show ?case using run r(2,3) d s by blast
qed

lemma uninitialized_loop_copy_src:
  "uninitialized_loop thr (\<lambda>x. x) src s dst d0 d k = Returned (src', dst') \<or>
   uninitialized_loop thr (\<lambda>x. x) src s dst d0 d k = Thrown (src', dst')
   \<Longrightarrow> src' = src"
proof (induction k arbitrary: s dst d)
  case 0
  then show ?case by auto
next
  case (Suc k)
  have same: "\<And>x. s < length src \<Longrightarrow> src ! s = Some x \<Longrightarrow> src[s := Some x] = src"
    by (simp add: list_update_same_conv)
  from Suc show ?case
    by (auto simp: slot_at_def same split: option.splits if_splits)
qed

lemma uninitialized_construct_loop_length:
  "uninitialized_construct_loop c dst d0 d k = Returned dst' \<or>
   uninitialized_construct_loop c dst d0 d k = Thrown dst'
   \<Longrightarrow> length dst' = length dst"
proof (induction k arbitrary: dst d)
  case 0
  then show ?case by auto
next
  case (Suc k)
  then show ?case
    by (auto simp: length_destroy_n split: option.splits if_splits)
qed

lemma uninitialized_construct_loop_Returned:
  assumes "d + k \<le> length dst"
  shows "\<exists>dst'. uninitialized_construct_loop (Some x) dst d0 d k = Returned dst' \<and>
           length dst' = length dst \<and>
           (\<forall>i<length dst. dst' ! i = (if d \<le> i \<and> i < d + k then Some x else dst ! i))"
  using assms
proof (induction k arbitrary: dst d)
  case 0
  then show ?case by auto
next
  case (Suc k)
  let ?dst = "dst[d := Some x]"
  from Suc.prems have "Suc d + k \<le> length ?dst" by simp
  from Suc.IH[OF this] obtain dst' where r:
    "uninitialized_construct_loop (Some x) ?dst d0 (Suc d) k = Returned dst'"
    "length dst' = length dst"
    "\<forall>i<length dst. dst' ! i = (if Suc d \<le> i \<and> i < Suc d + k then Some x else ?dst ! i)"
    by auto
  have run: "uninitialized_construct_loop (Some x) dst d0 d (Suc k) = Returned dst'"
    using r(1) Suc.prems by simp
  have "\<forall>i<length dst. dst' ! i = (if d \<le> i \<and> i < d + Suc k then Some x else dst ! i)"
  proof (intro allI impI)
    fix i assume i: "i < length dst"
    show "dst' ! i = (if d \<le> i \<and> i < d + Suc k then Some x else dst ! i)"
    proof (cases "i = d")
      case True
      then show ?thesis using r(3) i by simp
    next
      case False
      then show ?thesis using r(3) i by (auto simp: le_Suc_eq)
    qed
  qed
  with run r(2) show ?case by blast
qed

lemma copy_loop_length:
  "copy_loop T src s dst d k = Returned dst' \<or> copy_loop T src s dst d k = Thrown dst'
   \<Longrightarrow> length dst' = length dst"
proof (induction k arbitrary: s dst d)
  case 0
  then show ?case by auto
next
  case (Suc k)
  then show ?case
    by (auto split: option.splits if_splits)
qed

lemma copy_loop_Returned:
  assumes "s + k \<le> length src" and "d + k \<le> length dst"
    and "\<forall>j<k. \<exists>x. src ! (s + j) = Some x \<and> \<not> copy_assign_throws T x"
    and "\<forall>j<k. dst ! (d + j) \<noteq> None"
  shows "\<exists>dst'. copy_loop T src s dst d k = Returned dst' \<and> length dst' = length dst \<and>
           (\<forall>i<length dst. dst' ! i = (if d \<le> i \<and> i < d + k then src ! (s + (i - d)) else dst ! i))"
  using assms
proof (induction k arbitrary: s dst d)
  case 0
  then show ?case by auto
next
  case (Suc k)
  from Suc.prems(3) obtain x where x: "src ! s = Some x" "\<not> copy_assign_throws T x"
    by (metis add.right_neutral zero_less_Suc)
  from Suc.prems(4) obtain y where y: "dst ! d = Some y"
    by (metis add.right_neutral zero_less_Suc not_Some_eq)
  let ?dst = "dst[d := Some x]"
  have p3: "\<forall>j<k. \<exists>y. src ! (Suc s + j) = Some y \<and> \<not> copy_assign_throws T y"
    using Suc.prems(3) by (metis Suc_less_eq add_Suc_shift)
  have p4: "\<forall>j<k. ?dst ! (Suc d + j) \<noteq> None"
    using Suc.prems(4) by (metis Suc_less_eq add_Suc_shift nth_list_update_neq Suc_n_not_le_n le_add1)
  from Suc.prems have p1: "Suc s + k \<le> length src" and p2: "Suc d + k \<le> length ?dst" by simp_all
  from Suc.IH[OF p1 p2 p3 p4] obtain dst' where r:
    "copy_loop T src (Suc s) ?dst (Suc d) k = Returned dst'"
    "length dst' = length dst"
    "\<forall>i<length dst. dst' ! i = (if Suc d \<le> i \<and> i < Suc d + k then src ! (Suc s + (i - Suc d)) else ?dst ! i)"
    by auto
  have run: "copy_loop T src s dst d (Suc k) = Returned dst'"
    using x y r(1) Suc.prems(1,2) by (simp add: slot_at_def)
  have "\<forall>i<length dst. dst' ! i = (if d \<le> i \<and> i < d + Suc k then src ! (s + (i - d)) else dst ! i)"
  proof (intro allI impI)
    fix i assume i: "i < length dst"
    show "dst' ! i = (if d \<le> i \<and> i < d + Suc k then src ! (s + (i - d)) else dst ! i)"
    proof (cases "i = d")
      case True
      then show ?thesis using r(3) i x by simp
    next
      case False
      then show ?thesis using r(3) i by (auto simp: Suc_diff_Suc le_Suc_eq)
    qed
  qed
  with run r(2) show ?case by blast
qed

lemma move_loop_length:
  "move_loop T m s d k = Returned m' \<or> move_loop T m s d k = Thrown m'
   \<Longrightarrow> length m' = length m"
proof (induction k arbitrary: m s d)
  case 0
  then show ?case by auto
next
  case (Suc k)
  then show ?case
    by (auto split: option.splits if_splits)
qed

lemma move_backward_loop_length:
  "move_backward_loop T m e d k = Returned m' \<or> move_backward_loop T m e d k = Thrown m'
   \<Longrightarrow> length m' = length m"
proof (induction k arbitrary: m e d)
  case 0
  then show ?case by auto
next
  case (Suc k)
  then show ?case
    by (auto split: option.splits if_splits)
qed

lemma move_loop_Returned:
  assumes "Suc d + k \<le> length m"
    and "\<forall>j\<le>k. m ! (d + j) \<noteq> None"
    and "\<forall>j<k. \<exists>x. m ! (Suc d + j) = Some x \<and> \<not> move_assign_throws T x"
  shows "\<exists>m'. move_loop T m (Suc d) d k = Returned m' \<and> length m' = length m \<and>
           (\<forall>i<length m. m' ! i =
              (if d \<le> i \<and> i < d + k then m ! Suc i
               else if i = d + k \<and> 0 < k then map_option (moved_from T) (m ! i)
               else m ! i))"
  using assms
proof (induction k arbitrary: m d)
  case 0
  then show ?case by auto
next
  case (Suc k)
  from Suc.prems(3) obtain x where x: "m ! Suc d = Some x" "\<not> move_assign_throws T x"
    by (metis add.right_neutral zero_less_Suc)
  from Suc.prems(2) obtain y where y: "m ! d = Some y"
    by (metis add.right_neutral le0 not_Some_eq)
  let ?m = "m[d := Some x, Suc d := Some (moved_from T x)]"
  have p1: "Suc (Suc d) + k \<le> length ?m" using Suc.prems(1) by simp
  have p2: "\<forall>j\<le>k. ?m ! (Suc d + j) \<noteq> None"
  proof (intro allI impI)
    fix j assume j: "j \<le> k"
    show "?m ! (Suc d + j) \<noteq> None"
    proof (cases "j = 0")
      case True
      then show ?thesis using Suc.prems(1) by simp
    next
      case False
      have "Suc j \<le> Suc k" using j by simp
      then have "m ! (d + Suc j) \<noteq> None" using Suc.prems(2) by blast
      then show ?thesis using False by simp
    qed
  qed
  have p3: "\<forall>j<k. \<exists>z. ?m ! (Suc (Suc d) + j) = Some z \<and> \<not> move_assign_throws T z"
  proof (intro allI impI)
    fix j assume "j < k"
    then obtain z where "m ! (Suc d + Suc j) = Some z \<and> \<not> move_assign_throws T z"
      using Suc.prems(3) by (meson Suc_less_eq)
    then show "\<exists>z. ?m ! (Suc (Suc d) + j) = Some z \<and> \<not> move_assign_throws T z" by simp
  qed
  from Suc.IH[OF p1 p2 p3] obtain m' where r:
    "move_loop T ?m (Suc (Suc d)) (Suc d) k = Returned m'"
    "length m' = length m"
    "\<forall>i<length m. m' ! i =
        (if Suc d \<le> i \<and> i < Suc d + k then ?m ! Suc i
         else if i = Suc d + k \<and> 0 < k then map_option (moved_from T) (?m ! i)
         else ?m ! i)"
    by auto
  have run: "move_loop T m (Suc d) d (Suc k) = Returned m'"
    using x y r(1) Suc.prems(1) by (simp add: slot_at_def)
  have "\<forall>i<length m. m' ! i =
          (if d \<le> i \<and> i < d + Suc k then m ! Suc i
           else if i = d + Suc k \<and> 0 < Suc k then map_option (moved_from T) (m ! i)
           else m ! i)"
  proof (intro allI impI)
    fix i assume i: "i < length m"
    consider "i < d" | "i = d" | "i = Suc d" | "Suc (Suc d) \<le> i" by linarith
    then show "m' ! i =
          (if d \<le> i \<and> i < d + Suc k then m ! Suc i
           else if i = d + Suc k \<and> 0 < Suc k then map_option (moved_from T) (m ! i)
           else m ! i)"
    proof cases
      case 1
      then show ?thesis using r(3) i by simp
    next
      case 2
      then show ?thesis using r(3) i x by simp
    next
      case 3
      then show ?thesis using r(3) i x Suc.prems(1) by (cases k) auto
    next
      case 4
      then show ?thesis using r(3) i by auto
    qed
  qed
  with run r(2) show ?case by blast
qed

lemma move_backward_loop_Returned:
  assumes "e < length m" and "k \<le> e"
    and "\<forall>j\<le>k. m ! (e - j) \<noteq> None"
    and "\<forall>j<k. \<exists>x. m ! (e - Suc j) = Some x \<and> \<not> move_assign_throws T x"
  shows "\<exists>m'. move_backward_loop T m e (Suc e) k = Returned m' \<and> length m' = length m \<and>
           (\<forall>i<length m. m' ! i =
              (if e - k < i \<and> i \<le> e then m ! (i - 1)
               else if i = e - k \<and> 0 < k then map_option (moved_from T) (m ! i)
               else m ! i))"
  using assms
proof (induction k arbitrary: m e)
  case 0
  then show ?case by auto
next
  case (Suc k)
  from Suc.prems(2) obtain e' where e: "e = Suc e'" by (cases e) auto
  from Suc.prems(4) e obtain x where x: "m ! e' = Some x" "\<not> move_assign_throws T x"
    by (metis diff_Suc_Suc diff_zero zero_less_Suc)
  from Suc.prems(3) obtain y where y: "m ! e = Some y"
    by (metis diff_zero le0 not_Some_eq)
  let ?m = "m[e := Some x, e' := Some (moved_from T x)]"
  have p1: "e' < length ?m" using Suc.prems(1) e by simp
  have p2: "k \<le> e'" using Suc.prems(2) e by simp
  have p3: "\<forall>j\<le>k. ?m ! (e' - j) \<noteq> None"
  proof (intro allI impI)
    fix j assume j: "j \<le> k"
    show "?m ! (e' - j) \<noteq> None"
    proof (cases "j = 0")
      case True
      then show ?thesis using Suc.prems(1) e by simp
    next
      case False
      have "Suc j \<le> Suc k" using j by simp
      then have "m ! (e - Suc j) \<noteq> None" using Suc.prems(3) by blast
      then show ?thesis using False e p2 j by simp
    qed
  qed
  have p4: "\<forall>j<k. \<exists>z. ?m ! (e' - Suc j) = Some z \<and> \<not> move_assign_throws T z"
  proof (intro allI impI)
    fix j assume j: "j < k"
    then obtain z where "m ! (e - Suc (Suc j)) = Some z \<and> \<not> move_assign_throws T z"
      using Suc.prems(4) by (meson Suc_less_eq)
    then show "\<exists>z. ?m ! (e' - Suc j) = Some z \<and> \<not> move_assign_throws T z"
      using e p2 j by simp
  qed
  from Suc.IH[OF p1 p2 p3 p4] obtain m' where r:
    "move_backward_loop T ?m e' (Suc e') k = Returned m'"
    "length m' = length m"
    "\<forall>i<length m. m' ! i =
        (if e' - k < i \<and> i \<le> e' then ?m ! (i - 1)
         else if i = e' - k \<and> 0 < k then map_option (moved_from T) (?m ! i)
         else ?m ! i)"
    by auto
  have run: "move_backward_loop T m e (Suc e) (Suc k) = Returned m'"
    using x y r(1) Suc.prems(1) e by (simp add: slot_at_def)
  have "\<forall>i<length m. m' ! i =
          (if e - Suc k < i \<and> i \<le> e then m ! (i - 1)
           else if i = e - Suc k \<and> 0 < Suc k then map_option (moved_from T) (m ! i)
           else m ! i)"
  proof (intro allI impI)
    fix i assume i: "i < length m"
    consider "e < i" | "i = e" | "i = e'" | "i < e'" using e by linarith
    then show "m' ! i =
          (if e - Suc k < i \<and> i \<le> e then m ! (i - 1)
           else if i = e - Suc k \<and> 0 < Suc k then map_option (moved_from T) (m ! i)
           else m ! i)"
    proof cases
      case 1
      then show ?thesis using r(3) i e by simp
    next
      case 2
      moreover have "Suc e' \<noteq> e' - k" by arith
      ultimately show ?thesis using r(3) i x e p2 Suc.prems(1) by (simp add: less_Suc_eq_le)
    next
      case 3
      then show ?thesis using r(3) i x e p2 Suc.prems(1) by (cases k) auto
    next
      case 4
      then show ?thesis using r(3) i e p2 by auto
    qed
  qed
  with run r(2) show ?case by blast
qed

section \<open>The invariant and the abstraction to a list\<close>

lemma wf_Vector_live:
  "wf_Vector v \<Longrightarrow> i < v_size v \<Longrightarrow> v_data v ! i = Some (elems v ! i)"
  by (auto simp: wf_Vector_def elems_def list_all_length)

lemma wf_Vector_dead:
  "wf_Vector v \<Longrightarrow> v_size v \<le> i \<Longrightarrow> i < length (v_data v) \<Longrightarrow> v_data v ! i = None"
proof -
  assume a: "wf_Vector v" "v_size v \<le> i" "i < length (v_data v)"
  then have "\<forall>n<length (v_data v) - v_size v. v_data v ! (v_size v + n) = None"
    by (simp add: wf_Vector_def list_all_length)
  moreover have "i - v_size v < length (v_data v) - v_size v" using a(2,3) by arith
  ultimately have "v_data v ! (v_size v + (i - v_size v)) = None" by blast
  with a(2) show ?thesis by simp
qed

lemma wf_Vector_size: "wf_Vector v \<Longrightarrow> v_size v \<le> length (v_data v)"
  by (simp add: wf_Vector_def)

lemma length_elems: "wf_Vector v \<Longrightarrow> length (elems v) = v_size v"
  by (simp add: wf_Vector_def elems_def)

lemma wf_VectorI:
  assumes "v_size v \<le> length (v_data v)"
    and "\<And>i. i < v_size v \<Longrightarrow> v_data v ! i \<noteq> None"
    and "\<And>i. v_size v \<le> i \<Longrightarrow> i < length (v_data v) \<Longrightarrow> v_data v ! i = None"
  shows "wf_Vector v"
  using assms by (auto simp: wf_Vector_def list_all_length)

lemma elems_nth: "v_size v \<le> length (v_data v) \<Longrightarrow> i < v_size v \<Longrightarrow> elems v ! i = the (v_data v ! i)"
  by (simp add: elems_def)

lemma elems_no_throw:
  "wf_Vector v \<Longrightarrow> \<forall>x\<in>set (elems v). \<not> P x \<Longrightarrow> i < v_size v
   \<Longrightarrow> \<exists>x. v_data v ! i = Some x \<and> \<not> P x"
  using wf_Vector_live[of v i] length_elems[of v] nth_mem[of i "elems v"] by auto

lemma CopyOrMove_Returned:
  assumes "s + k \<le> length src" and "d + k \<le> length dst"
    and "\<forall>j<k. \<exists>x. src ! (s + j) = Some x \<and> \<not> relocation_throws T x"
  shows "\<exists>src' dst'. CopyOrMove T src s dst d k = Returned (src', dst') \<and>
           length src' = length src \<and> length dst' = length dst \<and>
           (\<forall>i<length dst. dst' ! i = (if d \<le> i \<and> i < d + k then src ! (s + (i - d)) else dst ! i)) \<and>
           (\<forall>i<length src. s + k \<le> i \<longrightarrow> src' ! i = src ! i)"
proof (cases "nothrow_move_constructible T \<or> \<not> copy_constructible T")
  case True
  then have thr: "\<forall>j<k. \<exists>x. src ! (s + j) = Some x \<and> \<not> move_ctor_throws T x"
    using assms(3) by (simp add: relocation_throws_def)
  from uninitialized_loop_Returned[OF assms(1,2) thr, of "moved_from T" d]
  show ?thesis using True by (auto simp: CopyOrMove_def uninitialized_move_n_def)
next
  case False
  then have thr: "\<forall>j<k. \<exists>x. src ! (s + j) = Some x \<and> \<not> copy_ctor_throws T x"
    using assms(3) by (simp add: relocation_throws_def)
  from uninitialized_loop_Returned[OF assms(1,2) thr, of "\<lambda>x. x" d]
  show ?thesis using False by (auto simp: CopyOrMove_def uninitialized_copy_n_def)
qed

lemma Reserve_any_outcome:
  assumes "Reserve T n v = Returned v' \<or> Reserve T n v = Thrown v'"
  shows "v_size v' = v_size v \<and> Capacity v \<le> Capacity v'"
proof (cases "n \<le> Capacity v")
  case True
  then show ?thesis using assms by (auto simp: Reserve_def)
next
  case False
  then show ?thesis using assms
    by (auto simp: Reserve_def Capacity_def CopyOrMove_def uninitialized_move_n_def
        uninitialized_copy_n_def RawMemory_new_def
        split: outcome.splits prod.splits if_splits dest!: uninitialized_loop_length[OF disjI1]
        uninitialized_loop_length[OF disjI2])
qed

lemma Reserve_Thrown_copy:
  assumes "Reserve T n v = Thrown v'"
    and "\<not> (nothrow_move_constructible T \<or> \<not> copy_constructible T)"
  shows "v' = v"
  using assms
  by (auto simp: Reserve_def CopyOrMove_def uninitialized_copy_n_def
      split: outcome.splits prod.splits if_splits dest!: uninitialized_loop_copy_src[OF disjI2])

lemmas uninitialized_loop_lengthR = uninitialized_loop_length[OF disjI1]
lemmas uninitialized_loop_lengthT = uninitialized_loop_length[OF disjI2]
lemmas uninitialized_construct_loop_lengthR = uninitialized_construct_loop_length[OF disjI1]
lemmas uninitialized_construct_loop_lengthT = uninitialized_construct_loop_length[OF disjI2]
lemmas copy_loop_lengthR = copy_loop_length[OF disjI1]
lemmas copy_loop_lengthT = copy_loop_length[OF disjI2]
lemmas move_loop_lengthR = move_loop_length[OF disjI1]
lemmas move_loop_lengthT = move_loop_length[OF disjI2]
lemmas move_backward_loop_lengthR = move_backward_loop_length[OF disjI1]
lemmas move_backward_loop_lengthT = move_backward_loop_length[OF disjI2]

lemma CopyOrMove_length:
  "CopyOrMove T src s dst d k = Returned (src', dst') \<or>
   CopyOrMove T src s dst d k = Thrown (src', dst')
   \<Longrightarrow> length src' = length src \<and> length dst' = length dst"
  by (auto simp: CopyOrMove_def uninitialized_move_n_def uninitialized_copy_n_def
      split: if_splits dest!: uninitialized_loop_lengthR uninitialized_loop_lengthT)

lemmas CopyOrMove_lengthR = CopyOrMove_length[OF disjI1]
lemmas CopyOrMove_lengthT = CopyOrMove_length[OF disjI2]

lemma Reserve_Returned_capacity:
  "Reserve T n v = Returned v' \<Longrightarrow> Capacity v < n \<Longrightarrow> Capacity v' = n \<and> v_size v' = v_size v"
  by (auto simp: Reserve_def Capacity_def RawMemory_new_def
      split: outcome.splits prod.splits if_splits dest!: CopyOrMove_lengthR)

lemma Vector_sized_keeps: "outcome_all size_le_capacity (\<lambda>u. True) (Vector_sized T count)"
  by (auto simp: outcome_all_def Vector_sized_def size_le_capacity_def Capacity_def
      uninitialized_value_construct_n_def RawMemory_new_def
      split: outcome.splits dest!: uninitialized_construct_loop_lengthR)

lemma Vector_copy_keeps: "outcome_all size_le_capacity (\<lambda>u. True) (Vector_copy T v)"
  by (auto simp: outcome_all_def Vector_copy_def size_le_capacity_def Capacity_def
      uninitialized_copy_n_def RawMemory_new_def
      split: outcome.splits prod.splits dest!: uninitialized_loop_lengthR)

lemma Reserve_keeps:
  "size_le_capacity v \<Longrightarrow> outcome_all size_le_capacity size_le_capacity (Reserve T n v)"
  using Reserve_any_outcome[of T n v]
  by (auto simp: outcome_all_def size_le_capacity_def split: outcome.splits)

lemma uninitialized_default_construct_n_length:
  "uninitialized_default_construct_n T dst d k = Returned m \<or>
   uninitialized_default_construct_n T dst d k = Thrown m \<Longrightarrow> length m = length dst"
  by (auto simp: uninitialized_default_construct_n_def
      dest!: uninitialized_construct_loop_lengthR uninitialized_construct_loop_lengthT)

lemmas uninitialized_default_construct_n_lengthR = uninitialized_default_construct_n_length[OF disjI1]
lemmas uninitialized_default_construct_n_lengthT = uninitialized_default_construct_n_length[OF disjI2]

lemma Resize_keeps:
  assumes "size_le_capacity v"
  shows "outcome_all size_le_capacity size_le_capacity (Resize T n v)"
proof -
  consider "n < Capacity v" | "Capacity v < n" | "n = Capacity v" by linarith
  then show ?thesis
  proof cases
    case 1
    then show ?thesis using assms
      by (auto simp: outcome_all_def Resize_def size_le_capacity_def Capacity_def length_destroy_n
          split: outcome.splits
          dest!: uninitialized_default_construct_n_lengthR uninitialized_default_construct_n_lengthT)
  next
    case 2
    show ?thesis
    proof (cases "Reserve T n v")
      case (Returned v1)
      from Reserve_Returned_capacity[OF this 2] show ?thesis using 2 Returned assms
        by (auto simp: outcome_all_def Resize_def size_le_capacity_def Capacity_def
            split: outcome.splits
            dest!: uninitialized_default_construct_n_lengthR uninitialized_default_construct_n_lengthT)
    next
      case (Thrown v1)
      with Reserve_keeps[OF assms, of T n] show ?thesis using 2
        by (simp add: outcome_all_def Resize_def)
    next
      case Violation
      then show ?thesis using 2 by (simp add: outcome_all_def Resize_def)
    qed
  next
    case 3
    then show ?thesis
      by (simp add: outcome_all_def Resize_def size_le_capacity_def Capacity_def)
  qed
qed

lemma PopBack_keeps:
  "size_le_capacity v \<Longrightarrow> outcome_all size_le_capacity size_le_capacity (PopBack v)"
  by (auto simp: outcome_all_def PopBack_def size_le_capacity_def Capacity_def destroy_at_def
      length_destroy_n)

lemma Erase_keeps:
  "size_le_capacity v \<Longrightarrow> outcome_all size_le_capacity size_le_capacity (Erase T p v)"
  by (auto simp: outcome_all_def Erase_def size_le_capacity_def Capacity_def destroy_at_def
      length_destroy_n std_move_def
      split: outcome.splits if_splits dest!: move_loop_lengthR move_loop_lengthT)

lemma Swap_keeps:
  "size_le_capacity v \<Longrightarrow> size_le_capacity w
   \<Longrightarrow> size_le_capacity (fst (Swap v w)) \<and> size_le_capacity (snd (Swap v w))"
  by (simp add: Swap_def size_le_capacity_def Capacity_def)

lemma Vector_move_keeps:
  "size_le_capacity v
   \<Longrightarrow> size_le_capacity (fst (Vector_move v)) \<and> size_le_capacity (snd (Vector_move v))"
  by (simp add: Vector_move_def size_le_capacity_def Capacity_def)

lemma assign_move_keeps:
  "size_le_capacity (st a) \<Longrightarrow> size_le_capacity (st b)
   \<Longrightarrow> size_le_capacity (assign_move st a b a) \<and> size_le_capacity (assign_move st a b b)"
  by (simp add: assign_move_def size_le_capacity_def Capacity_def)

lemma EmplaceWithAllocate_Returned_size:
  assumes "EmplaceWithAllocate T p arg v = Returned v'" and "v_size v = Capacity v"
  shows "v_size v' = v_size v \<and> v_size v < Capacity v'"
proof (cases "v_size v = 0")
  case True
  then show ?thesis using assms
    by (auto simp: EmplaceWithAllocate_def Capacity_def RawMemory_new_def split: option.splits)
next
  case False
  then show ?thesis using assms
    by (auto simp: EmplaceWithAllocate_def Capacity_def RawMemory_new_def
        split: option.splits outcome.splits prod.splits if_splits
        dest!: CopyOrMove_lengthR)
qed

lemma EmplaceWithAllocate_Thrown_size:
  assumes "EmplaceWithAllocate T p arg v = Thrown (v', l)"
  shows "v_size v' = v_size v \<and> Capacity v' = Capacity v"
  using assms
  by (auto simp: EmplaceWithAllocate_def Capacity_def
      split: option.splits outcome.splits prod.splits if_splits
      dest!: CopyOrMove_lengthT CopyOrMove_lengthR)

lemma EmplaceWithoutAllocate_try_size:
  assumes "EmplaceWithoutAllocate_try T p arg v = Returned v' \<or>
           EmplaceWithoutAllocate_try T p arg v = Thrown v'"
  shows "v_size v' = v_size v \<and> Capacity v' = Capacity v"
  using assms
  by (auto simp: EmplaceWithoutAllocate_try_def Capacity_def std_move_backward_def
      split: option.splits outcome.splits if_splits
      dest!: move_backward_loop_lengthR move_backward_loop_lengthT)

lemma EmplaceWithoutAllocate_size:
  assumes "EmplaceWithoutAllocate T p arg v = Returned v' \<or>
           EmplaceWithoutAllocate T p arg v = Thrown (v', l)"
  shows "v_size v' = v_size v \<and> Capacity v' = Capacity v"
proof (cases "p < v_size v")
  case True
  then show ?thesis using assms
    by (auto simp: EmplaceWithoutAllocate_def split: outcome.splits
        dest!: EmplaceWithoutAllocate_try_size[OF disjI1] EmplaceWithoutAllocate_try_size[OF disjI2])
next
  case False
  then show ?thesis using assms
    by (auto simp: EmplaceWithoutAllocate_def Capacity_def split: option.splits if_splits)
qed

lemma Emplace_keeps:
  assumes "size_le_capacity v"
  shows "outcome_all size_le_capacity (\<lambda>e. size_le_capacity (fst e)) (Emplace T p arg v)"
proof (cases "v_size v = Capacity v")
  case True
  show ?thesis
  proof (cases "EmplaceWithAllocate T p arg v")
    case (Returned v')
    from EmplaceWithAllocate_Returned_size[OF this True] show ?thesis
      using True Returned
      by (simp add: outcome_all_def Emplace_def size_le_capacity_def Capacity_def)
  next
    case (Thrown e)
    then obtain v' l where "EmplaceWithAllocate T p arg v = Thrown (v', l)" "e = (v', l)"
      by (cases e) auto
    with EmplaceWithAllocate_Thrown_size[OF this(1)] show ?thesis using True assms
      by (simp add: outcome_all_def Emplace_def size_le_capacity_def)
  next
    case Violation
    then show ?thesis using True by (simp add: outcome_all_def Emplace_def)
  qed
next
  case False
  show ?thesis
  proof (cases "EmplaceWithoutAllocate T p arg v")
    case (Returned v')
    from EmplaceWithoutAllocate_size[OF disjI1, OF this] show ?thesis
      using False Returned assms
      by (simp add: outcome_all_def Emplace_def size_le_capacity_def Capacity_def)
  next
    case (Thrown e)
    then obtain v' l where "EmplaceWithoutAllocate T p arg v = Thrown (v', l)" "e = (v', l)"
      by (cases e) auto
    with EmplaceWithoutAllocate_size[OF disjI2, OF this(1)] show ?thesis using False assms
      by (simp add: outcome_all_def Emplace_def size_le_capacity_def)
  next
    case Violation
    then show ?thesis using False by (simp add: outcome_all_def Emplace_def)
  qed
qed

lemma assign_copy_keeps:
  assumes "size_le_capacity (st a)" and "size_le_capacity (st b)"
  shows "outcome_all (\<lambda>s. size_le_capacity (s a) \<and> size_le_capacity (s b))
           (\<lambda>s. size_le_capacity (s a) \<and> size_le_capacity (s b)) (assign_copy T st a b)"
proof (cases "a = b")
  case True
  then show ?thesis using assms by (simp add: assign_copy_def outcome_all_def)
next
  case False
  consider "Capacity (st a) < v_size (st b)"
    | "\<not> Capacity (st a) < v_size (st b)" "v_size (st a) < v_size (st b)"
    | "\<not> Capacity (st a) < v_size (st b)" "\<not> v_size (st a) < v_size (st b)" by blast
  then show ?thesis
  proof cases
    case 1
    then show ?thesis using False assms Vector_copy_keeps[of T "st b"]
      by (auto simp: assign_copy_def outcome_all_def Swap_def size_le_capacity_def Capacity_def
          split: outcome.splits)
  next
    case 2
    then show ?thesis using False assms
      by (auto simp: assign_copy_def outcome_all_def size_le_capacity_def Capacity_def
          std_copy_def uninitialized_copy_n_def
          split: outcome.splits prod.splits
          dest!: copy_loop_lengthR copy_loop_lengthT uninitialized_loop_lengthR
                 uninitialized_loop_lengthT)
  next
    case 3
    then show ?thesis using False assms
      by (auto simp: assign_copy_def outcome_all_def size_le_capacity_def Capacity_def
          std_copy_def length_destroy_n
          split: outcome.splits
          dest!: copy_loop_lengthR copy_loop_lengthT)
  qed
qed


section \<open>Self-assignment, move, and a throwing constructor\<close>

text \<open>
  C10. Copy assignment and move assignment of a vector to itself are no-ops: both
  operators test \<open>this != &other\<close> first, so the store (every object's size, capacity and
  elements) is what it was.
\<close>

theorem self_assignment_is_noop:
  "assign_copy T st a a = Returned st \<and> assign_move st a a = st"
  by (simp add: assign_copy_def assign_move_def)

text \<open>
  C7. Move construction from \<open>v\<close> gives an object with the buffer, the size and so the
  elements of \<open>v\<close>, and leaves \<open>v\<close> the default vector; move assignment \<open>a = std::move(b)\<close>
  of two different objects gives \<open>a\<close> the state of \<open>b\<close>, leaves \<open>b\<close> the default vector
  and touches no other object. The default vector has size and capacity \<open>0\<close>, satisfies
  the invariant, and an append to it succeeds.
\<close>

theorem move_transfers_and_resets:
  assumes "a \<noteq> b"
  shows "fst (Vector_move v) = v \<and> snd (Vector_move v) = Vector_default \<and>
         assign_move st a b a = st b \<and> assign_move st a b b = Vector_default \<and>
         (\<forall>c. c \<noteq> a \<and> c \<noteq> b \<longrightarrow> assign_move st a b c = st c) \<and>
         Size Vector_default = 0 \<and> Capacity Vector_default = 0 \<and> wf_Vector Vector_default \<and>
         PushBack T (Some x) Vector_default = Returned \<lparr>v_data = [Some x], v_size = 1\<rparr>"
  using assms
  by (simp add: Vector_move_def Vector_default_def assign_move_def Size_def Capacity_def
      wf_Vector_def PushBack_def Emplace_def EmplaceWithAllocate_def RawMemory_new_def)

theorem move_transfers_and_resets_witness:
  "assign_move ((\<lambda>i. Vector_default)(1 := \<lparr>v_data = [Some (5::nat), None], v_size = 1\<rparr>)) 0 1 0
     = ((\<lambda>i::nat. Vector_default)(1 := \<lparr>v_data = [Some (5::nat), None], v_size = 1\<rparr>)) 1 \<and>
   assign_move ((\<lambda>i. Vector_default)(1 := \<lparr>v_data = [Some (5::nat), None], v_size = 1\<rparr>)) 0 1 1
     = Vector_default \<and>
   PushBack sturdy (Some 0) Vector_default = Returned \<lparr>v_data = [Some 0], v_size = 1\<rparr>"
  using move_transfers_and_resets [where a = "0::nat" and b = 1 and v = Vector_default
      and T = sturdy and x = 0
      and st = "(\<lambda>i. Vector_default)(1 := \<lparr>v_data = [Some (5::nat), None], v_size = 1\<rparr>)",
      OF zero_neq_one]
  by (elim conjE) (intro conjI, assumption+)



section \<open>Two paths where the code leaves the data model\<close>

lemma Resize_at_capacity:
  "Resize T (Capacity v) v = Returned (v\<lparr>v_size := Capacity v\<rparr>) \<and>
   Resize_p0 T (Capacity v) v = Returned v"
  by (simp add: Resize_def Resize_p0_def)

text \<open>
  C1, at \<open>n = capacity\<close>. \<open>Resize\<close> tests \<open>Capacity() > new_size\<close> and \<open>Capacity() < new_size\<close>
  and has no branch for equality. An empty vector after \<open>Reserve(1)\<close> has size \<open>0\<close> and
  capacity \<open>1\<close>; \<open>Resize(1)\<close> on it runs no constructor. In \<open>vector.h\<close> the size becomes
  \<open>1\<close> over a slot that holds no object, which breaks the invariant; in the other
  revision the size stays \<open>0\<close>.
\<close>

theorem Resize_to_capacity_constructs_nothing:
  "Reserve sturdy 1 Vector_default = Returned \<lparr>v_data = [None], v_size = 0\<rparr> \<and>
   Resize sturdy 1 \<lparr>v_data = [None], v_size = 0\<rparr> = Returned \<lparr>v_data = [None], v_size = 1\<rparr> \<and>
   \<not> wf_Vector \<lparr>v_data = [None :: nat option], v_size = 1\<rparr> \<and>
   Resize_p0 sturdy 1 \<lparr>v_data = [None], v_size = 0\<rparr> = Returned \<lparr>v_data = [None], v_size = 0\<rparr>"
  by (simp add: Reserve_def Resize_def Resize_p0_def Capacity_def Vector_default_def
      wf_Vector_def CopyOrMove_def sturdy_def uninitialized_move_n_def RawMemory_new_def)

text \<open>
  C2, when the backward shift throws. The vector holds \<open>1, 2\<close> in a buffer of three
  slots and \<open>9\<close> is emplaced at position \<open>0\<close>; the element type's move assignment throws
  on the value \<open>1\<close>. The last element has been move-constructed into slot \<open>2\<close> when the
  shift throws. The handler calls \<open>operator delete(end())\<close>, which runs no destructor:
  the exception leaves with size \<open>2\<close> and a live object still in slot \<open>2\<close>. Both
  revisions agree.
\<close>

theorem Emplace_unwind_leaves_slot_alive:
  "Emplace fragile 0 (Some 9) \<lparr>v_data = [Some 1, Some 2, None], v_size = 2\<rparr>
     = Thrown (\<lparr>v_data = [Some 1, Some 0, Some 2], v_size = 2\<rparr>, [2]) \<and>
   Emplace_p0 fragile 0 (Some 9) \<lparr>v_data = [Some 1, Some 2, None], v_size = 2\<rparr>
     = Thrown (\<lparr>v_data = [Some 1, Some 0, Some 2], v_size = 2\<rparr>, [2])"
  by (simp add: Emplace_def Emplace_p0_def EmplaceWithoutAllocate_def
      EmplaceWithoutAllocate_try_def Capacity_def slot_at_def fragile_def
      std_move_backward_def)

section \<open>Capacity\<close>




section \<open>The invariant \<open>size_ \<le> capacity\<close>\<close>

text \<open>
  C9. Every public operation of \<open>vector.h\<close> preserves \<open>size_ \<le> capacity\<close>: if it holds of
  the objects an operation works on, it holds of them afterwards, whether the operation
  returns or throws. The constructors establish it. (That calls within the preconditions
  do return or throw is shown in the last section.)
\<close>

theorem size_le_capacity_preserved:
  assumes "size_le_capacity v" and "size_le_capacity w"
    and "size_le_capacity (st a)" and "size_le_capacity (st b)"
  shows "size_le_capacity (Vector_default :: 'a Vector) \<and>
         outcome_all size_le_capacity (\<lambda>u. True) (Vector_sized T n) \<and>
         outcome_all size_le_capacity (\<lambda>u. True) (Vector_copy T v) \<and>
         size_le_capacity (fst (Vector_move v)) \<and> size_le_capacity (snd (Vector_move v)) \<and>
         outcome_all (\<lambda>s. size_le_capacity (s a) \<and> size_le_capacity (s b))
           (\<lambda>s. size_le_capacity (s a) \<and> size_le_capacity (s b)) (assign_copy T st a b) \<and>
         size_le_capacity (assign_move st a b a) \<and> size_le_capacity (assign_move st a b b) \<and>
         outcome_all size_le_capacity size_le_capacity (Reserve T n v) \<and>
         outcome_all size_le_capacity size_le_capacity (Resize T n v) \<and>
         outcome_all size_le_capacity (\<lambda>e. size_le_capacity (fst e)) (PushBack T arg v) \<and>
         outcome_all size_le_capacity (\<lambda>e. size_le_capacity (fst e)) (EmplaceBack T arg v) \<and>
         outcome_all size_le_capacity (\<lambda>e. size_le_capacity (fst e)) (Emplace T p arg v) \<and>
         outcome_all size_le_capacity (\<lambda>e. size_le_capacity (fst e)) (Insert_copy T p x v) \<and>
         outcome_all size_le_capacity (\<lambda>e. size_le_capacity (fst e)) (Insert_move T p x v) \<and>
         outcome_all size_le_capacity size_le_capacity (Erase T p v) \<and>
         outcome_all size_le_capacity size_le_capacity (PopBack v) \<and>
         size_le_capacity (fst (Swap v w)) \<and> size_le_capacity (snd (Swap v w))"
proof -
  have d: "size_le_capacity (Vector_default :: 'a Vector)"
    by (simp add: size_le_capacity_def Vector_default_def Capacity_def)
  note e = Emplace_keeps[OF assms(1)]
  show ?thesis
    unfolding PushBack_def EmplaceBack_def Insert_copy_def Insert_move_def
    using d Vector_sized_keeps[of T n] Vector_copy_keeps[of T v] Vector_move_keeps[OF assms(1)]
      assign_copy_keeps[OF assms(3,4), of T] assign_move_keeps[OF assms(3,4)]
      Reserve_keeps[OF assms(1), of T n] Resize_keeps[OF assms(1), of T n]
      e[of T "v_size v" arg] e[of T p arg]
      e[of T p "if copy_ctor_throws T x then None else Some x"]
      e[of T p "if move_ctor_throws T x then None else Some x"]
      Erase_keeps[OF assms(1), of T p] PopBack_keeps[OF assms(1)] Swap_keeps[OF assms(1,2)]
    by simp
qed

theorem size_le_capacity_preserved_witness:
  "Emplace sturdy 1 (Some 9) \<lparr>v_data = [Some 1, Some 2], v_size = 2\<rparr>
     = Returned \<lparr>v_data = [Some 1, Some 9, Some 2, None], v_size = 3\<rparr> \<and>
   outcome_all size_le_capacity (\<lambda>e. size_le_capacity (fst e))
     (Emplace sturdy 1 (Some 9) \<lparr>v_data = [Some 1, Some 2], v_size = 2\<rparr>) \<and>
   Resize sturdy 4 \<lparr>v_data = [Some 1, Some 2], v_size = 2\<rparr>
     = Returned \<lparr>v_data = [Some 1, Some 2, Some 0, Some 0], v_size = 4\<rparr> \<and>
   outcome_all size_le_capacity size_le_capacity
     (Resize sturdy 4 \<lparr>v_data = [Some 1, Some 2], v_size = 2\<rparr>)"
proof -
  have h: "size_le_capacity \<lparr>v_data = [Some (1::nat), Some 2], v_size = 2\<rparr>"
    by (simp add: size_le_capacity_def Capacity_def)
  have s: "size_le_capacity ((\<lambda>i::nat. \<lparr>v_data = [Some (1::nat), Some 2], v_size = 2\<rparr>) 0)"
    using h by simp
  have e: "Emplace sturdy 1 (Some 9) \<lparr>v_data = [Some 1, Some 2], v_size = 2\<rparr>
     = Returned \<lparr>v_data = [Some 1, Some 9, Some 2, None], v_size = 3\<rparr>"
    by (simp add: Emplace_def EmplaceWithAllocate_def Capacity_def CopyOrMove_def sturdy_def
        uninitialized_move_n_def RawMemory_new_def slot_at_def numeral_2_eq_2)
  have r: "Resize sturdy 4 \<lparr>v_data = [Some 1, Some 2], v_size = 2\<rparr>
     = Returned \<lparr>v_data = [Some 1, Some 2, Some 0, Some 0], v_size = 4\<rparr>"
    by (simp add: Resize_def Reserve_def Capacity_def CopyOrMove_def sturdy_def
        uninitialized_move_n_def uninitialized_default_construct_n_def RawMemory_new_def
        slot_at_def numeral_2_eq_2 eval_nat_numeral)
  note t = size_le_capacity_preserved [where T = sturdy and n = 4 and p = 1
      and arg = "Some 9" and x = 0 and a = 0 and b = 0
      and st = "\<lambda>i::nat. \<lparr>v_data = [Some (1::nat), Some 2], v_size = 2\<rparr>", OF h h s s]
  from t have a: "outcome_all size_le_capacity (\<lambda>e. size_le_capacity (fst e))
     (Emplace sturdy 1 (Some 9) \<lparr>v_data = [Some 1, Some 2], v_size = 2\<rparr>)"
    by (elim conjE) assumption
  from t have b: "outcome_all size_le_capacity size_le_capacity
     (Resize sturdy 4 \<lparr>v_data = [Some 1, Some 2], v_size = 2\<rparr>)"
    by (elim conjE) assumption
  show ?thesis using a b e r by (intro conjI) assumption+
qed

section \<open>Insertion and removal\<close>

lemma elems_eqI:
  assumes "wf_Vector v'" and "length xs = v_size v'"
    and "\<And>i. i < v_size v' \<Longrightarrow> v_data v' ! i = Some (xs ! i)"
  shows "elems v' = xs"
proof (rule nth_equalityI)
  show "length (elems v') = length xs" using assms(1,2) by (simp add: length_elems)
next
  fix i assume "i < length (elems v')"
  then have i: "i < v_size v'" using assms(1) by (simp add: length_elems)
  from wf_Vector_live[OF assms(1) i] assms(3)[OF i] show "elems v' ! i = xs ! i" by simp
qed

lemma inserted_layout:
  assumes wf: "wf_Vector v" and p: "p \<le> v_size v"
    and sz: "v_size v' = v_size v + 1" and cap: "v_size v < length (v_data v')"
    and nth: "\<And>i. i < length (v_data v') \<Longrightarrow> v_data v' ! i =
      (if i < p then v_data v ! i else if i = p then Some x
       else if i \<le> v_size v then v_data v ! (i - 1) else None)"
  shows "wf_Vector v' \<and> elems v' = take p (elems v) @ x # drop p (elems v)"
proof -
  let ?n = "v_size v"
  have live: "\<And>i. i < ?n \<Longrightarrow> v_data v ! i = Some (elems v ! i)"
    using wf_Vector_live[OF wf] .
  have wf': "wf_Vector v'"
  proof (rule wf_VectorI)
    show "v_size v' \<le> length (v_data v')" using sz cap by simp
  next
    fix i assume "i < v_size v'"
    then have i: "i < ?n + 1" using sz by simp
    then have n2: "v_data v' ! i =
      (if i < p then v_data v ! i else if i = p then Some x
       else if i \<le> v_size v then v_data v ! (i - 1) else None)" using nth cap by simp
    consider "i < p" | "i = p" | "p < i" by linarith
    then show "v_data v' ! i \<noteq> None"
    proof cases
      case 1
      then have "i < ?n" using p by simp
      from live[OF this] n2 1 show ?thesis by auto
    next
      case 2
      then show ?thesis using n2 by simp
    next
      case 3
      then have "i - 1 < ?n" using i by arith
      from live[OF this] n2 3 i show ?thesis by auto
    qed
  next
    fix i assume "v_size v' \<le> i" "i < length (v_data v')"
    then have "?n < i" "i < length (v_data v')" using sz by simp_all
    with nth[of i] p show "v_data v' ! i = None" by simp
  qed
  have el: "elems v' = take p (elems v) @ x # drop p (elems v)"
  proof (rule elems_eqI[OF wf'])
    show "length (take p (elems v) @ x # drop p (elems v)) = v_size v'"
      using p sz by (simp add: length_elems[OF wf])
  next
    fix i assume "i < v_size v'"
    then have i: "i < ?n + 1" using sz by simp
    then have i2: "i < length (v_data v')" using cap by simp
    consider "i < p" | "i = p" | "p < i" by linarith
    then show "v_data v' ! i = Some ((take p (elems v) @ x # drop p (elems v)) ! i)"
    proof cases
      case 1
      then show ?thesis using nth[OF i2] p live[of i]
        by (simp add: nth_append length_elems[OF wf])
    next
      case 2
      then show ?thesis using nth[OF i2] p
        by (simp add: nth_append length_elems[OF wf])
    next
      case 3
      then have "i - 1 < ?n" "i - p = Suc (i - p - 1)" "p + (i - p - 1) = i - 1" using i by arith+
      then show ?thesis using 3 nth[OF i2] p i live[of "i - 1"]
        by (simp add: nth_append length_elems[OF wf])
    qed
  qed
  show ?thesis using wf' el by simp
qed

lemma Emplace_allocate:
  assumes wf: "wf_Vector v" and full: "v_size v = Capacity v" and p: "p \<le> v_size v"
    and nothrow: "\<forall>y\<in>set (elems v). \<not> relocation_throws T y"
  shows "\<exists>v'. Emplace T p (Some x) v = Returned v' \<and>
           Capacity v' = (if Capacity v = 0 then 1 else Capacity v * 2) \<and>
           v_size v' = v_size v + 1 \<and> v_data v' ! p = Some x \<and> wf_Vector v' \<and>
           elems v' = take p (elems v) @ x # drop p (elems v)"
proof (cases "v_size v = 0")
  case True
  let ?v = "v\<lparr>v_data := [Some x], v_size := 1\<rparr>"
  have run: "Emplace T p (Some x) v = Returned ?v"
    using True full by (simp add: Emplace_def EmplaceWithAllocate_def RawMemory_new_def)
  have p0: "p = 0" using p True by simp
  have e: "elems v = []" using True by (simp add: elems_def)
  have "wf_Vector ?v" by (simp add: wf_Vector_def)
  moreover have "elems ?v = [x]" by (simp add: elems_def)
  then have "elems ?v = take p (elems v) @ x # drop p (elems v)"
    using e by simp
  ultimately show ?thesis using run True full p0 by (simp add: Capacity_def)
next
  case False
  let ?n = "v_size v"
  let ?d = "v_data v"
  have len: "length ?d = ?n" using full by (simp add: Capacity_def)
  let ?temp = "(RawMemory_new (Capacity v * 2))[p := Some x] :: 'a RawMemory"
  have ltemp: "length ?temp = ?n * 2" using len by (simp add: RawMemory_new_def Capacity_def)
  have live: "\<And>i. i < ?n \<Longrightarrow> \<exists>y. ?d ! i = Some y \<and> \<not> relocation_throws T y"
    using elems_no_throw[OF wf nothrow] by blast
  have a1: "0 + p \<le> length ?d" "0 + p \<le> length ?temp" using p len ltemp by simp_all
  have a3: "\<forall>j<p. \<exists>y. ?d ! (0 + j) = Some y \<and> \<not> relocation_throws T y"
    using live p by simp
  from CopyOrMove_Returned[OF a1 a3] obtain old temp1 where r1:
    "CopyOrMove T ?d 0 ?temp 0 p = Returned (old, temp1)"
    "length old = ?n" "length temp1 = ?n * 2"
    "\<forall>i<?n * 2. temp1 ! i = (if i < p then ?d ! i else ?temp ! i)"
    "\<forall>i<?n. p \<le> i \<longrightarrow> old ! i = ?d ! i"
    using len ltemp by auto
  have b1: "p + (?n - p) \<le> length old" "(p + 1) + (?n - p) \<le> length temp1"
    using p r1(2,3) False by simp_all
  have b3: "\<forall>j<?n - p. \<exists>y. old ! (p + j) = Some y \<and> \<not> relocation_throws T y"
    using live r1(5) by simp
  from CopyOrMove_Returned[OF b1 b3] obtain old' temp2 where r2:
    "CopyOrMove T old p temp1 (p + 1) (?n - p) = Returned (old', temp2)"
    "length temp2 = ?n * 2"
    "\<forall>i<?n * 2. temp2 ! i = (if p + 1 \<le> i \<and> i < p + 1 + (?n - p) then old ! (p + (i - (p + 1))) else temp1 ! i)"
    using r1(3) by auto
  let ?v = "v\<lparr>v_data := temp2, v_size := ?n + 1\<rparr>"
  have run: "Emplace T p (Some x) v = Returned ?v"
    using False p r1(1) r2(1) len
    by (simp add: Emplace_def EmplaceWithAllocate_def Capacity_def)
  have nth2: "\<And>i. i < ?n * 2 \<Longrightarrow> temp2 ! i =
      (if i < p then ?d ! i else if i = p then Some x else if i \<le> ?n then ?d ! (i - 1) else None)"
  proof -
    fix i assume i: "i < ?n * 2"
    consider "i < p" | "i = p" | "p < i" "i \<le> ?n" | "?n < i" using p by linarith
    then show "temp2 ! i =
      (if i < p then ?d ! i else if i = p then Some x else if i \<le> ?n then ?d ! (i - 1) else None)"
    proof cases
      case 1
      then show ?thesis using r2(3) r1(4) i by simp
    next
      case 2
      then show ?thesis using r2(3) r1(4) i ltemp by simp
    next
      case 3
      then have "p + (i - (p + 1)) = i - 1" by arith
      then show ?thesis using 3 r2(3) r1(5) i p by simp
    next
      case 4
      then show ?thesis using r2(3) r1(4) i p ltemp len
        by (simp add: RawMemory_new_def Capacity_def)
    qed
  qed
  have lay: "wf_Vector ?v \<and> elems ?v = take p (elems v) @ x # drop p (elems v)"
  proof (rule inserted_layout[OF wf p])
    show "v_size ?v = v_size v + 1" by simp
    show "v_size v < length (v_data ?v)" using r2(2) False by simp
    show "\<And>i. i < length (v_data ?v) \<Longrightarrow> v_data ?v ! i =
      (if i < p then v_data v ! i else if i = p then Some x
       else if i \<le> v_size v then v_data v ! (i - 1) else None)"
      using nth2 r2(2) by simp
  qed
  have "v_data ?v ! p = Some x" using nth2[of p] p False by simp
  then show ?thesis using run lay r2(2) len False by (simp add: Capacity_def)
qed

lemma Emplace_append:
  assumes wf: "wf_Vector v" and spare: "v_size v < Capacity v"
  shows "\<exists>v'. Emplace T (v_size v) (Some x) v = Returned v' \<and> Capacity v' = Capacity v \<and>
           v_size v' = v_size v + 1 \<and> v_data v' ! v_size v = Some x \<and> wf_Vector v' \<and>
           elems v' = take (v_size v) (elems v) @ x # drop (v_size v) (elems v)"
proof -
  let ?v = "v\<lparr>v_data := (v_data v)[v_size v := Some x], v_size := v_size v + 1\<rparr>"
  have run: "Emplace T (v_size v) (Some x) v = Returned ?v"
    using spare by (simp add: Emplace_def EmplaceWithoutAllocate_def)
  have lay: "wf_Vector ?v \<and>
      elems ?v = take (v_size v) (elems v) @ x # drop (v_size v) (elems v)"
  proof (rule inserted_layout[OF wf])
    show "v_size v \<le> v_size v" by simp
    show "v_size ?v = v_size v + 1" by simp
    show "v_size v < length (v_data ?v)" using spare by (simp add: Capacity_def)
    show "\<And>i. i < length (v_data ?v) \<Longrightarrow> v_data ?v ! i =
      (if i < v_size v then v_data v ! i else if i = v_size v then Some x
       else if i \<le> v_size v then v_data v ! (i - 1) else None)"
      using wf_Vector_dead[OF wf] by (simp add: nth_list_update)
  qed
  show ?thesis using run lay spare by (simp add: Capacity_def)
qed

lemma Emplace_middle:
  assumes wf: "wf_Vector v" and spare: "v_size v < Capacity v" and p: "p < v_size v"
    and mc: "\<not> move_ctor_throws T (elems v ! (v_size v - 1))"
    and ma: "\<forall>y\<in>set (elems v). \<not> move_assign_throws T y"
    and max: "\<not> move_assign_throws T x"
  shows "\<exists>v'. Emplace T p (Some x) v = Returned v' \<and> Capacity v' = Capacity v \<and>
           v_size v' = v_size v + 1 \<and> v_data v' ! p = Some x \<and> wf_Vector v' \<and>
           elems v' = take p (elems v) @ x # drop p (elems v)"
proof -
  let ?n = "v_size v"
  let ?d = "v_data v"
  obtain e where e: "?n = Suc e" using p by (cases ?n) auto
  have cap: "?n < length ?d" using spare by (simp add: Capacity_def)
  have live: "\<And>i. i < ?n \<Longrightarrow> ?d ! i = Some (elems v ! i)"
    using wf_Vector_live[OF wf] .
  have nothr: "\<And>i. i < ?n \<Longrightarrow> \<not> move_assign_throws T (elems v ! i)"
    using ma length_elems[OF wf] nth_mem[of _ "elems v"] by auto
  let ?y = "elems v ! e"
  let ?m1 = "?d[?n := Some ?y, e := Some (moved_from T ?y)]"
  have pe: "p \<le> e" using p e by simp
  have c1: "e < length ?m1" using cap e by simp
  have c2: "e - p \<le> e" by simp
  have c3: "\<forall>j\<le>e - p. ?m1 ! (e - j) \<noteq> None"
  proof (intro allI impI)
    fix j assume "j \<le> e - p"
    show "?m1 ! (e - j) \<noteq> None"
    proof (cases "j = 0")
      case True
      then show ?thesis using c1 by simp
    next
      case False
      then have "e - j < e" "e - j < ?n" using pe \<open>j \<le> e - p\<close> e by arith+
      then show ?thesis using live[of "e - j"] e by simp
    qed
  qed
  have c4: "\<forall>j<e - p. \<exists>z. ?m1 ! (e - Suc j) = Some z \<and> \<not> move_assign_throws T z"
  proof (intro allI impI)
    fix j assume "j < e - p"
    then have "e - Suc j < e" "e - Suc j < ?n" using e by arith+
    then show "\<exists>z. ?m1 ! (e - Suc j) = Some z \<and> \<not> move_assign_throws T z"
      using live[of "e - Suc j"] nothr[of "e - Suc j"] e by simp
  qed
  from move_backward_loop_Returned[OF c1 c2 c3 c4] obtain m' where r:
    "move_backward_loop T ?m1 e (Suc e) (e - p) = Returned m'"
    "length m' = length ?d"
    "\<forall>i<length ?d. m' ! i =
        (if e - (e - p) < i \<and> i \<le> e then ?m1 ! (i - 1)
         else if i = e - (e - p) \<and> 0 < e - p then map_option (moved_from T) (?m1 ! i)
         else ?m1 ! i)"
    by auto
  have ep: "e - (e - p) = p" using pe by simp
  have mp: "m' ! p \<noteq> None"
  proof (cases "p = e")
    case True
    then show ?thesis using r(3) cap e by simp
  next
    case False
    then have "p < e" using pe by simp
    then show ?thesis using r(3) cap e ep live[of p] p by simp
  qed
  let ?v = "v\<lparr>v_data := m'[p := Some x], v_size := ?n + 1\<rparr>"
  have run: "Emplace T p (Some x) v = Returned ?v"
    using spare p e mc max r(1,2) mp cap live[of e] pe
    by (auto simp: Emplace_def EmplaceWithoutAllocate_def EmplaceWithoutAllocate_try_def
        Capacity_def slot_at_def std_move_backward_def)
  have lay: "wf_Vector ?v \<and> elems ?v = take p (elems v) @ x # drop p (elems v)"
  proof (rule inserted_layout[OF wf])
    show "p \<le> v_size v" using p by simp
    show "v_size ?v = v_size v + 1" by simp
    show "v_size v < length (v_data ?v)" using cap r(2) by simp
  next
    fix i assume "i < length (v_data ?v)"
    then have i: "i < length ?d" using r(2) by simp
    consider "i < p" | "i = p" | "p < i" "i \<le> e" | "i = ?n" | "?n < i" using e by linarith
    then show "v_data ?v ! i =
      (if i < p then v_data v ! i else if i = p then Some x
       else if i \<le> v_size v then v_data v ! (i - 1) else None)"
    proof cases
      case 1
      then show ?thesis using r(2,3) i ep e pe by simp
    next
      case 2
      then show ?thesis using r(2) i by simp
    next
      case 3
      then have "i - 1 < e" by arith
      then show ?thesis using 3 r(2,3) i ep e by simp
    next
      case 4
      then show ?thesis using r(2,3) i ep e pe live[of e] by simp
    next
      case 5
      then show ?thesis using r(2,3) i ep e pe wf_Vector_dead[OF wf, of i] by simp
    qed
  qed
  have "v_data ?v ! p = Some x" using r(2) cap p by simp
  then show ?thesis using run lay r(2) by (simp add: Capacity_def)
qed

lemma Emplace_inserts:
  assumes wf: "wf_Vector v" and p: "p \<le> v_size v"
    and safe: "\<forall>y\<in>set (elems v).
       \<not> relocation_throws T y \<and> \<not> move_ctor_throws T y \<and> \<not> move_assign_throws T y"
    and max: "\<not> move_assign_throws T x"
  shows "\<exists>v'. Emplace T p (Some x) v = Returned v' \<and> v_size v' = v_size v + 1 \<and>
           v_data v' ! p = Some x \<and> wf_Vector v' \<and>
           elems v' = take p (elems v) @ x # drop p (elems v)"
proof -
  consider "v_size v = Capacity v" | "v_size v < Capacity v" "p = v_size v"
    | "v_size v < Capacity v" "p < v_size v"
    using wf_Vector_size[OF wf] p unfolding Capacity_def by linarith
  then show ?thesis
  proof cases
    case 1
    from Emplace_allocate[OF wf 1 p, of T x] safe show ?thesis by auto
  next
    case 2
    from Emplace_append[OF wf 2(1), of T x] 2(2) show ?thesis by auto
  next
    case 3
    have "v_size v - 1 < length (elems v)" using 3(2) by (simp add: length_elems[OF wf])
    then have "elems v ! (v_size v - 1) \<in> set (elems v)" by (rule nth_mem)
    then have mc: "\<not> move_ctor_throws T (elems v ! (v_size v - 1))" using safe by blast
    have ma: "\<forall>y\<in>set (elems v). \<not> move_assign_throws T y" using safe by blast
    from Emplace_middle[OF wf 3 mc ma max] show ?thesis by auto
  qed
qed

lemma Erase_removes:
  assumes wf: "wf_Vector v" and p: "p < v_size v"
    and ma: "\<forall>y\<in>set (drop (Suc p) (elems v)). \<not> move_assign_throws T y"
  shows "\<exists>v'. Erase T p v = Returned v' \<and> v_size v' = v_size v - 1 \<and>
           Capacity v' = Capacity v \<and> wf_Vector v' \<and>
           elems v' = take p (elems v) @ drop (Suc p) (elems v) \<and>
           (\<forall>i. p \<le> i \<and> i < v_size v - 1 \<longrightarrow> v_data v' ! i = v_data v ! Suc i) \<and>
           v_data v' ! (v_size v - 1) = None"
proof -
  let ?n = "v_size v"
  let ?d = "v_data v"
  let ?k = "?n - Suc p"
  have sz: "?n \<le> length ?d" using wf by (rule wf_Vector_size)
  have live: "\<And>i. i < ?n \<Longrightarrow> ?d ! i = Some (elems v ! i)"
    using wf_Vector_live[OF wf] .
  have le: "length (elems v) = ?n" using wf by (rule length_elems)
  have c1: "Suc p + ?k \<le> length ?d" using p sz by simp
  have c2: "\<forall>j\<le>?k. ?d ! (p + j) \<noteq> None"
  proof (intro allI impI)
    fix j assume "j \<le> ?k"
    then have "p + j < ?n" using p by arith
    from live[OF this] show "?d ! (p + j) \<noteq> None" by simp
  qed
  have c3: "\<forall>j<?k. \<exists>y. ?d ! (Suc p + j) = Some y \<and> \<not> move_assign_throws T y"
  proof (intro allI impI)
    fix j assume j: "j < ?k"
    then have i: "Suc p + j < ?n" by arith
    have "drop (Suc p) (elems v) ! j \<in> set (drop (Suc p) (elems v))"
      using j le by (intro nth_mem) simp
    moreover have "drop (Suc p) (elems v) ! j = elems v ! (Suc p + j)"
      using i le by simp
    ultimately have "\<not> move_assign_throws T (elems v ! (Suc p + j))" using ma by auto
    with live[OF i] show "\<exists>y. ?d ! (Suc p + j) = Some y \<and> \<not> move_assign_throws T y" by simp
  qed
  from move_loop_Returned[OF c1 c2 c3] obtain m' where r:
    "move_loop T ?d (Suc p) p ?k = Returned m'"
    "length m' = length ?d"
    "\<forall>i<length ?d. m' ! i =
        (if p \<le> i \<and> i < p + ?k then ?d ! Suc i
         else if i = p + ?k \<and> 0 < ?k then map_option (moved_from T) (?d ! i)
         else ?d ! i)"
    by auto
  have pk: "p + ?k = ?n - 1" using p by arith
  let ?v = "v\<lparr>v_data := destroy_at m' (?n - 1), v_size := ?n - 1\<rparr>"
  have run: "Erase T p v = Returned ?v"
    using p r(1) by (simp add: Erase_def std_move_def)
  have nth': "\<And>i. i < length ?d \<Longrightarrow> v_data ?v ! i =
      (if i < p then ?d ! i else if i < ?n - 1 then ?d ! Suc i else None)"
  proof -
    fix i assume i: "i < length ?d"
    from r(3) i have mi: "m' ! i =
        (if p \<le> i \<and> i < p + ?k then ?d ! Suc i
         else if i = p + ?k \<and> 0 < ?k then map_option (moved_from T) (?d ! i)
         else ?d ! i)" by blast
    have dv: "v_data ?v ! i = (if i = ?n - 1 then None else m' ! i)"
      using i r(2) by (auto simp: destroy_at_def nth_destroy_n)
    consider "i < p" | "p \<le> i" "i < ?n - 1" | "i = ?n - 1" | "?n \<le> i" by linarith
    then show "v_data ?v ! i =
      (if i < p then ?d ! i else if i < ?n - 1 then ?d ! Suc i else None)"
    proof cases
      case 1
      then have "\<not> p \<le> i" "i \<noteq> p + ?k" "i \<noteq> ?n - 1" "i < ?n - 1" using p by arith+
      then show ?thesis using mi dv 1 by simp
    next
      case 2
      then have "i < p + ?k" "i \<noteq> ?n - 1" "\<not> i < p" using p by arith+
      then show ?thesis using mi dv 2 by simp
    next
      case 3
      then have "\<not> i < p" "\<not> i < ?n - 1" using p by arith+
      then show ?thesis using dv 3 by simp
    next
      case 4
      then have "\<not> i < p" "\<not> i < ?n - 1" "\<not> i < p + ?k" "i \<noteq> p + ?k" "i \<noteq> ?n - 1"
        using p by arith+
      then show ?thesis using mi dv wf_Vector_dead[OF wf 4 i] by simp
    qed
  qed
  have lenv: "length (v_data ?v) = length ?d"
    using r(2) by (simp add: destroy_at_def length_destroy_n)
  have wf': "wf_Vector ?v"
  proof (rule wf_VectorI)
    show "v_size ?v \<le> length (v_data ?v)" using sz lenv by simp
  next
    fix i assume "i < v_size ?v"
    then have i: "i < ?n - 1" by simp
    then have "i < length ?d" "i < ?n" "Suc i < ?n" using sz by arith+
    then show "v_data ?v ! i \<noteq> None"
      using nth'[of i] live[of i] live[of "Suc i"] i by (simp split: if_splits)
  next
    fix i assume "v_size ?v \<le> i" "i < length (v_data ?v)"
    then have "?n - 1 \<le> i" "i < length ?d" using lenv by simp_all
    moreover from this have "\<not> i < p" "\<not> i < ?n - 1" using p by arith+
    ultimately show "v_data ?v ! i = None" using nth'[of i] by simp
  qed
  have el: "elems ?v = take p (elems v) @ drop (Suc p) (elems v)"
  proof (rule elems_eqI[OF wf'])
    show "length (take p (elems v) @ drop (Suc p) (elems v)) = v_size ?v"
      using p le by simp
  next
    fix i assume "i < v_size ?v"
    then have i: "i < ?n - 1" by simp
    then have il: "i < length ?d" "i < ?n" "Suc i < ?n" using sz by arith+
    show "v_data ?v ! i = Some ((take p (elems v) @ drop (Suc p) (elems v)) ! i)"
    proof (cases "i < p")
      case True
      then show ?thesis using nth'[OF il(1)] live[OF il(2)] p le by (simp add: nth_append)
    next
      case False
      then have "Suc p + (i - p) = Suc i" by simp
      then show ?thesis using False nth'[OF il(1)] live[OF il(3)] p le i
        by (simp add: nth_append)
    qed
  qed
  have shift: "\<forall>i. p \<le> i \<and> i < ?n - 1 \<longrightarrow> v_data ?v ! i = ?d ! Suc i"
    using nth' sz by auto
  have "?n - 1 < length ?d" "\<not> ?n - 1 < p" using p sz by arith+
  then have dead: "v_data ?v ! (?n - 1) = None" using nth'[of "?n - 1"] by simp
  show ?thesis using run wf' el shift dead lenv by (simp add: Capacity_def)
qed

lemma CopyOrMove_zero: "CopyOrMove T src s dst d 0 = Returned (src, dst)"
  by (simp add: CopyOrMove_def uninitialized_move_n_def uninitialized_copy_n_def)

lemma Emplace_p0_full:
  assumes "v_size v = Capacity v"
  shows "Emplace_p0 T p arg v = Emplace T p arg v"
proof (cases "nothrow_move_constructible T \<or> \<not> copy_constructible T")
  case True
  then show ?thesis using assms
    by (auto simp: Emplace_p0_def Emplace_def EmplaceWithAllocate_def CopyOrMove_def
        split: option.splits outcome.splits prod.splits)
next
  case False
  then show ?thesis using assms
    by (auto simp: Emplace_p0_def Emplace_def EmplaceWithAllocate_def CopyOrMove_def
        split: option.splits outcome.splits prod.splits)
qed

lemma PushBack_p0_full:
  assumes "v_size v = Capacity v"
  shows "PushBack_p0 T arg v = PushBack T arg v \<and> EmplaceBack_p0 T arg v = EmplaceBack T arg v"
proof (cases "v_size v = 0")
  case True
  then show ?thesis using assms
    by (auto simp: PushBack_p0_def PushBack_def EmplaceBack_p0_def EmplaceBack_def Emplace_def
        EmplaceWithAllocate_def split: option.splits)
next
  case False
  then have "v_size v < Capacity v * 2" "\<not> Capacity v * 2 < v_size v" using assms by simp_all
  then show ?thesis using False assms
    by (auto simp: PushBack_p0_def PushBack_def EmplaceBack_p0_def EmplaceBack_def Emplace_def
        EmplaceWithAllocate_def CopyOrMove_zero CopyOrMove_def uninitialized_move_n_def
        uninitialized_copy_n_def
        split: option.splits outcome.splits prod.splits)
qed


text \<open>
  C4. On a vector that satisfies the invariant and is full (\<open>size_\<close> equals the capacity),
  \<open>Emplace\<close> at a position \<open>p \<le> size_\<close>, \<open>PushBack\<close>, \<open>EmplaceBack\<close> and \<open>Insert\<close> return,
  provided relocation throws on none of the old elements: the capacity is then twice
  the old one, or \<open>1\<close> when it was \<open>0\<close>, the size is one more, and the new element is in
  slot \<open>p\<close> of the new buffer with the old elements around it. Nothing is assumed of the
  copy or move constructor on the new element: it is built in its slot and no
  relocation touches it. Both revisions agree.
\<close>

theorem full_insert_doubles_capacity:
  assumes "wf_Vector v" and "v_size v = Capacity v" and "p \<le> v_size v"
    and "\<forall>y\<in>set (elems v). \<not> relocation_throws T y"
  shows "grows_on_insert v p x (Emplace T p (Some x) v) \<and>
         grows_on_insert v (v_size v) x (PushBack T (Some x) v) \<and>
         grows_on_insert v (v_size v) x (EmplaceBack T (Some x) v) \<and>
         (\<not> copy_ctor_throws T x \<longrightarrow> grows_on_insert v p x (Insert_copy T p x v)) \<and>
         (\<not> move_ctor_throws T x \<longrightarrow> grows_on_insert v p x (Insert_move T p x v)) \<and>
         grows_on_insert v p x (Emplace_p0 T p (Some x) v) \<and>
         grows_on_insert v (v_size v) x (PushBack_p0 T (Some x) v) \<and>
         grows_on_insert v (v_size v) x (EmplaceBack_p0 T (Some x) v)"
proof -
  have g: "\<And>q. q \<le> v_size v \<Longrightarrow> grows_on_insert v q x (Emplace T q (Some x) v)"
  proof -
    fix q assume q: "q \<le> v_size v"
    from Emplace_allocate[OF assms(1,2) q assms(4), of x] show
      "grows_on_insert v q x (Emplace T q (Some x) v)"
      by (auto simp: grows_on_insert_def Size_def)
  qed
  have e: "Emplace_p0 T p (Some x) v = Emplace T p (Some x) v"
    using assms(2) by (rule Emplace_p0_full)
  note b = PushBack_p0_full[OF assms(2), of T "Some x"]
  show ?thesis using g[OF assms(3)] g[of "v_size v"] e b
    by (simp add: PushBack_def EmplaceBack_def Insert_copy_def Insert_move_def)
qed

theorem full_insert_doubles_capacity_witness:
  "grows_on_insert \<lparr>v_data = [Some 1, Some 2], v_size = 2\<rparr> 1 7
     (Emplace fragile 1 (Some 7) \<lparr>v_data = [Some 1, Some 2], v_size = 2\<rparr>) \<and>
   Emplace fragile 1 (Some 7) \<lparr>v_data = [Some 1, Some 2], v_size = 2\<rparr>
     = Returned \<lparr>v_data = [Some 1, Some 7, Some 2, None], v_size = 3\<rparr> \<and>
   copy_ctor_throws fragile 7 \<and> move_ctor_throws fragile 7"
proof -
  have h1: "wf_Vector \<lparr>v_data = [Some (1::nat), Some 2], v_size = 2\<rparr>"
    by (simp add: wf_Vector_def)
  have h2: "v_size \<lparr>v_data = [Some (1::nat), Some 2], v_size = 2\<rparr>
      = Capacity \<lparr>v_data = [Some (1::nat), Some 2], v_size = 2\<rparr>"
    by (simp add: Capacity_def)
  have h3: "1 \<le> v_size \<lparr>v_data = [Some (1::nat), Some 2], v_size = 2\<rparr>" by simp
  have h4: "\<forall>y\<in>set (elems \<lparr>v_data = [Some (1::nat), Some 2], v_size = 2\<rparr>).
      \<not> relocation_throws fragile y"
    by (simp add: elems_def relocation_throws_def fragile_def)
  note t = full_insert_doubles_capacity [OF h1 h2 h3 h4, of 7]
  from t have a: "grows_on_insert \<lparr>v_data = [Some 1, Some 2], v_size = 2\<rparr> 1 7
     (Emplace fragile 1 (Some 7) \<lparr>v_data = [Some 1, Some 2], v_size = 2\<rparr>)"
    by (elim conjE) assumption
  have b: "Emplace fragile 1 (Some 7) \<lparr>v_data = [Some 1, Some 2], v_size = 2\<rparr>
     = Returned \<lparr>v_data = [Some 1, Some 7, Some 2, None], v_size = 3\<rparr>"
    by (simp add: Emplace_def EmplaceWithAllocate_def Capacity_def CopyOrMove_def fragile_def
        uninitialized_copy_n_def RawMemory_new_def slot_at_def numeral_2_eq_2)
  have c: "copy_ctor_throws fragile 7 \<and> move_ctor_throws fragile 7"
    by (simp add: fragile_def)
  show ?thesis using a b c by (intro conjI) (elim conjE, assumption)+
qed


text \<open>
  C8. On a vector that satisfies the invariant, when the moves and the relocation of its
  elements and the move assignment of the new value do not throw: inserting a value at a
  position \<open>p \<le> size_\<close> and then removing at \<open>p\<close> gives back the size and the elements in
  their order. Removal at \<open>p < size_\<close> returns with each element of \<open>[p+1, size_)\<close> one slot
  to the left, no live object in the last slot, and the size one less.
\<close>

theorem insert_then_erase_is_identity:
  assumes "wf_Vector v" and "p \<le> v_size v"
    and "\<forall>y\<in>set (elems v).
       \<not> relocation_throws T y \<and> \<not> move_ctor_throws T y \<and> \<not> move_assign_throws T y"
    and "\<not> move_assign_throws T x"
  shows "(\<exists>v1 v2. Emplace T p (Some x) v = Returned v1 \<and> Erase T p v1 = Returned v2 \<and>
            Size v1 = Size v + 1 \<and> Size v2 = Size v \<and> elems v2 = elems v \<and> wf_Vector v2) \<and>
         (\<not> copy_ctor_throws T x \<longrightarrow> Insert_copy T p x v = Emplace T p (Some x) v) \<and>
         (\<not> move_ctor_throws T x \<longrightarrow> Insert_move T p x v = Emplace T p (Some x) v) \<and>
         (p < v_size v \<longrightarrow>
            (\<exists>v3. Erase T p v = Returned v3 \<and> Size v3 = Size v - 1 \<and>
               elems v3 = take p (elems v) @ drop (Suc p) (elems v) \<and>
               (\<forall>i. p \<le> i \<and> i < v_size v - 1 \<longrightarrow> v_data v3 ! i = v_data v ! Suc i) \<and>
               v_data v3 ! (v_size v - 1) = None \<and> wf_Vector v3))"
proof -
  from Emplace_inserts[OF assms] obtain v1 where v1:
    "Emplace T p (Some x) v = Returned v1" "v_size v1 = v_size v + 1" "wf_Vector v1"
    "elems v1 = take p (elems v) @ x # drop p (elems v)" by blast
  have le: "length (elems v) = v_size v" using assms(1) by (rule length_elems)
  have dr: "drop (Suc p) (elems v1) = drop p (elems v)"
    using v1(4) assms(2) le by simp
  have tk: "take p (elems v1) = take p (elems v)"
    using v1(4) assms(2) le by simp
  have p1: "p < v_size v1" using v1(2) assms(2) by simp
  have ma: "\<forall>y\<in>set (drop (Suc p) (elems v1)). \<not> move_assign_throws T y"
    using dr assms(3) by (auto dest: in_set_dropD)
  from Erase_removes[OF v1(3) p1 ma] obtain v2 where v2:
    "Erase T p v1 = Returned v2" "v_size v2 = v_size v1 - 1" "wf_Vector v2"
    "elems v2 = take p (elems v1) @ drop (Suc p) (elems v1)" by blast
  have "elems v2 = elems v" using v2(4) dr tk by simp
  then have first: "\<exists>v1 v2. Emplace T p (Some x) v = Returned v1 \<and> Erase T p v1 = Returned v2 \<and>
            Size v1 = Size v + 1 \<and> Size v2 = Size v \<and> elems v2 = elems v \<and> wf_Vector v2"
    using v1(1,2) v2(1,2,3) by (auto simp: Size_def)
  have second: "p < v_size v \<longrightarrow>
            (\<exists>v3. Erase T p v = Returned v3 \<and> Size v3 = Size v - 1 \<and>
               elems v3 = take p (elems v) @ drop (Suc p) (elems v) \<and>
               (\<forall>i. p \<le> i \<and> i < v_size v - 1 \<longrightarrow> v_data v3 ! i = v_data v ! Suc i) \<and>
               v_data v3 ! (v_size v - 1) = None \<and> wf_Vector v3)"
  proof
    assume p: "p < v_size v"
    have "\<forall>y\<in>set (drop (Suc p) (elems v)). \<not> move_assign_throws T y"
      using assms(3) by (auto dest: in_set_dropD)
    from Erase_removes[OF assms(1) p this] show
      "\<exists>v3. Erase T p v = Returned v3 \<and> Size v3 = Size v - 1 \<and>
               elems v3 = take p (elems v) @ drop (Suc p) (elems v) \<and>
               (\<forall>i. p \<le> i \<and> i < v_size v - 1 \<longrightarrow> v_data v3 ! i = v_data v ! Suc i) \<and>
               v_data v3 ! (v_size v - 1) = None \<and> wf_Vector v3"
      by (auto simp: Size_def)
  qed
  show ?thesis using first second by (simp add: Insert_copy_def Insert_move_def)
qed

theorem insert_then_erase_is_identity_witness:
  "Emplace fragile 1 (Some 9) \<lparr>v_data = [Some 3, Some 4, None], v_size = 2\<rparr>
     = Returned \<lparr>v_data = [Some 3, Some 9, Some 4], v_size = 3\<rparr> \<and>
   Erase fragile 1 \<lparr>v_data = [Some 3, Some 9, Some 4], v_size = 3\<rparr>
     = Returned \<lparr>v_data = [Some 3, Some 4, None], v_size = 2\<rparr> \<and>
   (\<exists>v1 v2. Emplace fragile 1 (Some 9) \<lparr>v_data = [Some 3, Some 4, None], v_size = 2\<rparr> = Returned v1 \<and>
      Erase fragile 1 v1 = Returned v2 \<and>
      elems v2 = elems \<lparr>v_data = [Some 3, Some 4, None], v_size = 2\<rparr>)"
proof -
  have h1: "wf_Vector \<lparr>v_data = [Some (3::nat), Some 4, None], v_size = 2\<rparr>"
    by (simp add: wf_Vector_def)
  have h2: "1 \<le> v_size \<lparr>v_data = [Some (3::nat), Some 4, None], v_size = 2\<rparr>" by simp
  have h3: "\<forall>y\<in>set (elems \<lparr>v_data = [Some (3::nat), Some 4, None], v_size = 2\<rparr>).
      \<not> relocation_throws fragile y \<and> \<not> move_ctor_throws fragile y \<and>
      \<not> move_assign_throws fragile y"
    by (simp add: elems_def relocation_throws_def fragile_def)
  have h4: "\<not> move_assign_throws fragile 9" by (simp add: fragile_def)
  from insert_then_erase_is_identity [OF h1 h2 h3 h4]
  have c: "\<exists>v1 v2. Emplace fragile 1 (Some 9) \<lparr>v_data = [Some 3, Some 4, None], v_size = 2\<rparr> = Returned v1 \<and>
      Erase fragile 1 v1 = Returned v2 \<and>
      elems v2 = elems \<lparr>v_data = [Some 3, Some 4, None], v_size = 2\<rparr>"
    by blast
  have a: "Emplace fragile 1 (Some 9) \<lparr>v_data = [Some 3, Some 4, None], v_size = 2\<rparr>
     = Returned \<lparr>v_data = [Some 3, Some 9, Some 4], v_size = 3\<rparr>"
    by (simp add: Emplace_def EmplaceWithoutAllocate_def EmplaceWithoutAllocate_try_def
        Capacity_def slot_at_def fragile_def std_move_backward_def)
  have b: "Erase fragile 1 \<lparr>v_data = [Some 3, Some 9, Some 4], v_size = 3\<rparr>
     = Returned \<lparr>v_data = [Some 3, Some 4, None], v_size = 2\<rparr>"
    by (simp add: Erase_def std_move_def slot_at_def fragile_def destroy_at_def destroy_n_def
        numeral_3_eq_3 upt_rec)
  show ?thesis using a b c by (intro conjI) assumption+
qed

section \<open>The remaining cases of \<open>Resize\<close> and of the unwinding\<close>

text \<open>
  \<open>Resize(n)\<close> for \<open>n\<close> below the capacity, in both revisions: the call returns with
  size \<open>n\<close>, the first \<open>min(n, size_)\<close> elements as they were and default-constructed
  elements after them, and no live object beyond \<open>n\<close>.
\<close>

lemma Resize_below_capacity:
  assumes wf: "wf_Vector v" and n: "n < Capacity v" and dflt: "default_ctor T = Some z"
  shows "\<exists>v'. Resize T n v = Returned v' \<and> Resize_p0 T n v = Returned v' \<and> v_size v' = n \<and>
           Capacity v' = Capacity v \<and> wf_Vector v' \<and>
           elems v' = take n (elems v) @ replicate (n - v_size v) z"
proof -
  let ?s = "v_size v" and ?d = "v_data v"
  have sz: "?s \<le> length ?d" using wf by (rule wf_Vector_size)
  have nl: "n < length ?d" using n by (simp add: Capacity_def)
  have le: "length (elems v) = ?s" using wf by (rule length_elems)
  have live: "\<And>i. i < ?s \<Longrightarrow> ?d ! i = Some (elems v ! i)" using wf_Vector_live[OF wf] .
  consider (shrink) "n < ?s" | (grow) "?s < n" | (same) "n = ?s" by linarith
  then show ?thesis
  proof cases
    case shrink
    let ?v = "v\<lparr>v_data := destroy_n ?d n (?s - n), v_size := n\<rparr>"
    have run: "Resize T n v = Returned ?v" "Resize_p0 T n v = Returned ?v"
      using shrink n by (simp_all add: Resize_def Resize_p0_def)
    have wf': "wf_Vector ?v"
    proof (rule wf_VectorI)
      show "v_size ?v \<le> length (v_data ?v)" using nl by (simp add: length_destroy_n)
    next
      fix i assume "i < v_size ?v"
      then have "i < n" by simp
      then show "v_data ?v ! i \<noteq> None" using nl shrink live[of i] by (simp add: nth_destroy_n)
    next
      fix i assume "v_size ?v \<le> i" "i < length (v_data ?v)"
      then have i: "n \<le> i" "i < length ?d" by (simp_all add: length_destroy_n)
      show "v_data ?v ! i = None"
      proof (cases "i < ?s")
        case True
        then show ?thesis using i shrink by (simp add: nth_destroy_n)
      next
        case False
        then have "?s \<le> i" by simp
        from wf_Vector_dead[OF wf this i(2)] show ?thesis using i by (simp add: nth_destroy_n)
      qed
    qed
    have el: "elems ?v = take n (elems v) @ replicate (n - ?s) z"
    proof (rule elems_eqI[OF wf'])
      show "length (take n (elems v) @ replicate (n - ?s) z) = v_size ?v"
        using shrink le by simp
    next
      fix i assume "i < v_size ?v"
      then have i: "i < n" by simp
      then show "v_data ?v ! i = Some ((take n (elems v) @ replicate (n - ?s) z) ! i)"
        using nl shrink live[of i] le by (simp add: nth_destroy_n nth_append)
    qed
    show ?thesis using run wf' el by (simp add: Capacity_def length_destroy_n)
  next
    case grow
    have "?s + (n - ?s) \<le> length ?d" using grow nl by simp
    from uninitialized_construct_loop_Returned[OF this, of z ?s] obtain m where m:
      "uninitialized_construct_loop (Some z) ?d ?s ?s (n - ?s) = Returned m"
      "length m = length ?d"
      "\<forall>i<length ?d. m ! i = (if ?s \<le> i \<and> i < ?s + (n - ?s) then Some z else ?d ! i)"
      by auto
    let ?v = "v\<lparr>v_data := m, v_size := n\<rparr>"
    have run: "Resize T n v = Returned ?v" "Resize_p0 T n v = Returned ?v"
      using grow n m(1) dflt
      by (simp_all add: Resize_def Resize_p0_def uninitialized_default_construct_n_def)
    have nth: "\<And>i. i < length ?d \<Longrightarrow> m ! i = (if ?s \<le> i \<and> i < n then Some z else ?d ! i)"
      using m(3) grow by simp
    have wf': "wf_Vector ?v"
    proof (rule wf_VectorI)
      show "v_size ?v \<le> length (v_data ?v)" using nl m(2) by simp
    next
      fix i assume "i < v_size ?v"
      then have "i < n" by simp
      then show "v_data ?v ! i \<noteq> None" using nl nth[of i] live[of i] by (cases "i < ?s") auto
    next
      fix i assume "v_size ?v \<le> i" "i < length (v_data ?v)"
      then have i: "n \<le> i" "i < length ?d" using m(2) by simp_all
      then have "?s \<le> i" using grow by simp
      from wf_Vector_dead[OF wf this i(2)] show "v_data ?v ! i = None" using nth[of i] i by simp
    qed
    have el: "elems ?v = take n (elems v) @ replicate (n - ?s) z"
    proof (rule elems_eqI[OF wf'])
      show "length (take n (elems v) @ replicate (n - ?s) z) = v_size ?v"
        using grow le by simp
    next
      fix i assume "i < v_size ?v"
      then have i: "i < n" by simp
      show "v_data ?v ! i = Some ((take n (elems v) @ replicate (n - ?s) z) ! i)"
      proof (cases "i < ?s")
        case True
        then show ?thesis using nl nth[of i] live[of i] le grow i by (simp add: nth_append)
      next
        case False
        then show ?thesis using nl nth[of i] le grow i by (simp add: nth_append)
      qed
    qed
    show ?thesis using run wf' el m(2) by (simp add: Capacity_def)
  next
    case same
    have run: "Resize T n v = Returned v" "Resize_p0 T n v = Returned v"
      using same n by (simp_all add: Resize_def Resize_p0_def)
    have "elems v = take n (elems v) @ replicate (n - ?s) z" using same le by simp
    then show ?thesis using run wf same by simp
  qed
qed


text \<open>
  The unwinding of the in-place insertion in general: whatever throws after the last
  element has been move-constructed into slot \<open>size_\<close>, the exception leaves with the
  size unchanged, with \<open>size_\<close> passed to \<open>operator delete\<close>, and with the object in slot
  \<open>size_\<close> alive.
\<close>

lemma move_backward_loop_above:
  assumes "move_backward_loop T m e d k = Returned m' \<or> move_backward_loop T m e d k = Thrown m'"
    and "e < d"
  shows "\<forall>i. d \<le> i \<longrightarrow> m' ! i = m ! i"
  using assms
proof (induction k arbitrary: m e d)
  case 0
  then show ?case by auto
next
  case (Suc k)
  show ?case
  proof (cases "e = 0 \<or> d = 0")
    case True
    then show ?thesis using Suc.prems by simp
  next
    case False
    then obtain e' d' where ed: "e = Suc e'" "d = Suc d'" by (cases e; cases d) auto
    show ?thesis
    proof (cases "slot_at m e'")
      case None
      then show ?thesis using Suc.prems ed by simp
    next
      case (Some x)
      show ?thesis
      proof (cases "slot_at m d'")
        case None
        then show ?thesis using Suc.prems ed Some by simp
      next
        case (Some y)
        show ?thesis
        proof (cases "move_assign_throws T x")
          case True
          then show ?thesis using Suc.prems ed \<open>slot_at m e' = Some x\<close> Some by auto
        next
          case False
          let ?m = "m[d' := Some x, e' := Some (moved_from T x)]"
          have "move_backward_loop T ?m e' d' k = Returned m' \<or>
                move_backward_loop T ?m e' d' k = Thrown m'"
            using Suc.prems(1) ed \<open>slot_at m e' = Some x\<close> Some False by simp
          moreover have "e' < d'" using Suc.prems(2) ed by simp
          ultimately have "\<forall>i. d' \<le> i \<longrightarrow> m' ! i = ?m ! i" by (rule Suc.IH)
          then show ?thesis using ed Suc.prems(2) by auto
        qed
      qed
    qed
  qed
qed

lemma Emplace_throw_keeps_slot:
  assumes wf: "wf_Vector v" and spare: "v_size v < Capacity v" and p: "p < v_size v"
    and mc: "\<not> move_ctor_throws T (elems v ! (v_size v - 1))"
    and thrown: "Emplace T p (Some x) v = Thrown (v', l)"
  shows "v_size v' = v_size v \<and> l = [v_size v] \<and>
         v_data v' ! v_size v = Some (elems v ! (v_size v - 1))"
proof -
  let ?n = "v_size v" and ?d = "v_data v"
  obtain e where e: "?n = Suc e" using p by (cases ?n) auto
  have cap: "?n < length ?d" using spare by (simp add: Capacity_def)
  have live: "?d ! e = Some (elems v ! e)" using wf_Vector_live[OF wf, of e] e by simp
  let ?y = "elems v ! e"
  let ?m1 = "?d[?n := Some ?y, e := Some (moved_from T ?y)]"
  have m1: "?m1 ! ?n = Some ?y" "length ?m1 = length ?d" using cap e by simp_all
  from thrown have t: "EmplaceWithoutAllocate_try T p (Some x) v = Thrown v'" "l = [v_size v']"
    using spare p
    by (auto simp: Emplace_def EmplaceWithoutAllocate_def split: outcome.splits if_splits)
  have pe: "p \<le> e" using p e by simp
  show ?thesis
  proof (cases "move_backward_loop T ?m1 e (Suc e) (e - p)")
    case (Returned m)
    from move_backward_loop_above[OF disjI1[OF Returned]]
    have "\<forall>i. Suc e \<le> i \<longrightarrow> m ! i = ?m1 ! i" by simp
    then have "m ! ?n = Some ?y" using m1(1) e by simp
    then show ?thesis using t Returned cap e live mc pe
      by (auto simp: EmplaceWithoutAllocate_try_def Capacity_def slot_at_def
          std_move_backward_def split: option.splits if_splits)
  next
    case (Thrown m)
    from move_backward_loop_above[OF disjI2[OF Thrown]]
    have "\<forall>i. Suc e \<le> i \<longrightarrow> m ! i = ?m1 ! i" by simp
    then have "m ! ?n = Some ?y" using m1(1) e by simp
    then show ?thesis using t Thrown cap e live mc pe
      by (auto simp: EmplaceWithoutAllocate_try_def Capacity_def slot_at_def
          std_move_backward_def split: option.splits if_splits)
  next
    case Violation
    then show ?thesis using t cap e live mc pe
      by (auto simp: EmplaceWithoutAllocate_try_def Capacity_def slot_at_def
          std_move_backward_def split: option.splits if_splits)
  qed
qed

section \<open>Copy assignment\<close>

lemma uninitialized_loop_Thrown:
  assumes "s + k \<le> length src" and "d + k \<le> length dst"
    and "\<forall>j<k. src ! (s + j) \<noteq> None"
    and "\<exists>j<k. thr (the (src ! (s + j)))"
  shows "\<exists>r. uninitialized_loop thr leave src s dst d0 d k = Thrown r"
  using assms
proof (induction k arbitrary: src s dst d)
  case 0
  then show ?case by simp
next
  case (Suc k)
  from Suc.prems(3) obtain x where x: "src ! s = Some x"
    by (metis add.right_neutral zero_less_Suc not_Some_eq)
  show ?case
  proof (cases "thr x")
    case True
    then show ?thesis using x Suc.prems(1,2) by (simp add: slot_at_def)
  next
    case False
    let ?src = "src[s := Some (leave x)]"
    let ?dst = "dst[d := Some x]"
    from Suc.prems(4) obtain j where j: "j < Suc k" "thr (the (src ! (s + j)))" by blast
    have "j \<noteq> 0" using j(2) x False by (cases "j = 0") auto
    then obtain j' where j': "j = Suc j'" by (cases j) auto
    have p1: "Suc s + k \<le> length ?src" and p2: "Suc d + k \<le> length ?dst"
      using Suc.prems(1,2) by simp_all
    have p3: "\<forall>i<k. ?src ! (Suc s + i) \<noteq> None"
    proof (intro allI impI)
      fix i assume "i < k"
      then have "src ! (s + Suc i) \<noteq> None" using Suc.prems(3) by (meson Suc_less_eq)
      then show "?src ! (Suc s + i) \<noteq> None" by simp
    qed
    have p4: "\<exists>i<k. thr (the (?src ! (Suc s + i)))"
      using j j' by (intro exI[of _ j']) simp
    from Suc.IH[OF p1 p2 p3 p4] obtain r where
      "uninitialized_loop thr leave ?src (Suc s) ?dst d0 (Suc d) k = Thrown r" by blast
    then show ?thesis using x False Suc.prems(1,2) by (simp add: slot_at_def)
  qed
qed

lemma copied_layout:
  assumes wf: "wf_Vector w" and sz: "v_size v' = v_size w"
    and cap: "v_size w \<le> length (v_data v')"
    and nth: "\<And>i. i < length (v_data v') \<Longrightarrow>
      v_data v' ! i = (if i < v_size w then v_data w ! i else None)"
  shows "wf_Vector v' \<and> elems v' = elems w"
proof -
  have wf': "wf_Vector v'"
  proof (rule wf_VectorI)
    show "v_size v' \<le> length (v_data v')" using sz cap by simp
  next
    fix i assume "i < v_size v'"
    then have i: "i < v_size w" using sz by simp
    then show "v_data v' ! i \<noteq> None" using nth[of i] cap wf_Vector_live[OF wf i] by simp
  next
    fix i assume "v_size v' \<le> i" "i < length (v_data v')"
    then show "v_data v' ! i = None" using nth[of i] sz by simp
  qed
  have "elems v' = elems w"
  proof (rule elems_eqI[OF wf'])
    show "length (elems w) = v_size v'" using sz by (simp add: length_elems[OF wf])
  next
    fix i assume "i < v_size v'"
    then have i: "i < v_size w" using sz by simp
    then show "v_data v' ! i = Some (elems w ! i)"
      using nth[of i] cap wf_Vector_live[OF wf i] by simp
  qed
  with wf' show ?thesis by simp
qed

lemma Vector_copy_Returned:
  assumes wf: "wf_Vector w" and nothrow: "\<forall>y\<in>set (elems w). \<not> copy_ctor_throws T y"
  shows "\<exists>m. Vector_copy T w = Returned \<lparr>v_data = m, v_size = v_size w\<rparr> \<and>
           length m = v_size w \<and> wf_Vector \<lparr>v_data = m, v_size = v_size w\<rparr> \<and>
           elems \<lparr>v_data = m, v_size = v_size w\<rparr> = elems w"
proof -
  let ?n = "v_size w"
  have sz: "?n \<le> length (v_data w)" using wf by (rule wf_Vector_size)
  have c1: "0 + ?n \<le> length (v_data w)"
    and c2: "0 + ?n \<le> length (RawMemory_new ?n :: 'a RawMemory)"
    using sz by (simp_all add: RawMemory_new_def)
  have c3: "\<forall>j<?n. \<exists>x. v_data w ! (0 + j) = Some x \<and> \<not> copy_ctor_throws T x"
    using elems_no_throw[OF wf nothrow] by simp
  from uninitialized_loop_Returned[OF c1 c2 c3, of "\<lambda>x. x" 0] obtain src' m where r:
    "uninitialized_loop (copy_ctor_throws T) (\<lambda>x. x) (v_data w) 0 (RawMemory_new ?n) 0 0 ?n
       = Returned (src', m)"
    "length m = ?n" "\<forall>i<?n. m ! i = v_data w ! i"
    by (auto simp: RawMemory_new_def)
  let ?v = "\<lparr>v_data = m, v_size = ?n\<rparr>"
  have run: "Vector_copy T w = Returned ?v"
    using r(1) by (simp add: Vector_copy_def uninitialized_copy_n_def)
  have "wf_Vector ?v \<and> elems ?v = elems w"
    by (rule copied_layout[OF wf]) (use r(2,3) in auto)
  with run r(2) show ?thesis by blast
qed

lemma Vector_copy_Thrown:
  assumes wf: "wf_Vector w" and thr: "\<exists>y\<in>set (elems w). copy_ctor_throws T y"
  shows "Vector_copy T w = Thrown ()"
proof -
  let ?n = "v_size w"
  have sz: "?n \<le> length (v_data w)" using wf by (rule wf_Vector_size)
  have c1: "0 + ?n \<le> length (v_data w)"
    and c2: "0 + ?n \<le> length (RawMemory_new ?n :: 'a RawMemory)"
    using sz by (simp_all add: RawMemory_new_def)
  have c3: "\<forall>j<?n. v_data w ! (0 + j) \<noteq> None"
    using wf_Vector_live[OF wf] by simp
  from thr obtain j where j: "j < length (elems w)" "copy_ctor_throws T (elems w ! j)"
    by (auto simp: in_set_conv_nth)
  then have "j < ?n" by (simp add: length_elems[OF wf])
  with j(2) wf_Vector_live[OF wf this]
  have c4: "\<exists>j<?n. copy_ctor_throws T (the (v_data w ! (0 + j)))" by auto
  from uninitialized_loop_Thrown[OF c1 c2 c3 c4, of "\<lambda>x. x" 0] obtain r where
    "uninitialized_loop (copy_ctor_throws T) (\<lambda>x. x) (v_data w) 0 (RawMemory_new ?n) 0 0 ?n
       = Thrown r" by blast
  then show ?thesis by (simp add: Vector_copy_def uninitialized_copy_n_def)
qed

lemma assign_copy_Returned:
  assumes ab: "a \<noteq> b" and wfa: "wf_Vector (st a)" and wfb: "wf_Vector (st b)"
    and ctor: "\<forall>y\<in>set (copy_constructed st a b). \<not> copy_ctor_throws T y"
    and asg: "\<forall>y\<in>set (copy_assigned st a b). \<not> copy_assign_throws T y"
  shows "\<exists>v'. assign_copy T st a b = Returned (st(a := v')) \<and> v_size v' = v_size (st b) \<and>
           elems v' = elems (st b) \<and> wf_Vector v' \<and>
           Capacity v' = (if Capacity (st a) < v_size (st b) then v_size (st b)
                          else Capacity (st a))"
proof -
  let ?A = "st a" and ?B = "st b"
  let ?na = "v_size ?A" and ?nb = "v_size ?B"
  have sza: "?na \<le> length (v_data ?A)" using wfa by (rule wf_Vector_size)
  have szb: "?nb \<le> length (v_data ?B)" using wfb by (rule wf_Vector_size)
  have leb: "length (elems ?B) = ?nb" using wfb by (rule length_elems)
  have liveb: "\<And>i. i < ?nb \<Longrightarrow> v_data ?B ! i = Some (elems ?B ! i)"
    using wf_Vector_live[OF wfb] .
  consider (swap) "Capacity ?A < ?nb"
    | (grow) "\<not> Capacity ?A < ?nb" "?na < ?nb"
    | (shrink) "\<not> Capacity ?A < ?nb" "\<not> ?na < ?nb" by blast
  then show ?thesis
  proof cases
    case swap
    then have "\<forall>y\<in>set (elems ?B). \<not> copy_ctor_throws T y"
      using ctor by (simp add: copy_constructed_def)
    from Vector_copy_Returned[OF wfb this] obtain m where m:
      "Vector_copy T ?B = Returned \<lparr>v_data = m, v_size = ?nb\<rparr>" "length m = ?nb"
      "wf_Vector \<lparr>v_data = m, v_size = ?nb\<rparr>"
      "elems \<lparr>v_data = m, v_size = ?nb\<rparr> = elems ?B" by blast
    let ?v = "?A\<lparr>v_data := m, v_size := ?nb\<rparr>"
    have eq: "?v = \<lparr>v_data = m, v_size = ?nb\<rparr>" by simp
    have run: "assign_copy T st a b = Returned (st(a := ?v))"
      using ab swap m(1) by (simp add: assign_copy_def Swap_def)
    show ?thesis using run m(2,3,4) swap unfolding eq
      by (intro exI[of _ "\<lparr>v_data = m, v_size = ?nb\<rparr>"]) (simp add: Capacity_def)
  next
    case grow
    have capb: "?nb \<le> length (v_data ?A)" using grow(1) by (simp add: Capacity_def)
    have c1: "0 + ?na \<le> length (v_data ?B)" and c2: "0 + ?na \<le> length (v_data ?A)"
      using grow(2) szb sza by simp_all
    have c3: "\<forall>j<?na. \<exists>x. v_data ?B ! (0 + j) = Some x \<and> \<not> copy_assign_throws T x"
    proof (intro allI impI)
      fix j assume j: "j < ?na"
      then have jb: "j < ?nb" using grow(2) by simp
      have "take ?na (elems ?B) ! j \<in> set (take ?na (elems ?B))"
        using j jb leb by (intro nth_mem) simp
      then have "\<not> copy_assign_throws T (elems ?B ! j)"
        using asg grow(1) j by (simp add: copy_assigned_def)
      with liveb[OF jb] show "\<exists>x. v_data ?B ! (0 + j) = Some x \<and> \<not> copy_assign_throws T x"
        by simp
    qed
    have c4: "\<forall>j<?na. v_data ?A ! (0 + j) \<noteq> None"
      using wf_Vector_live[OF wfa] by simp
    from copy_loop_Returned[OF c1 c2 c3 c4] obtain m where m:
      "copy_loop T (v_data ?B) 0 (v_data ?A) 0 ?na = Returned m"
      "length m = length (v_data ?A)"
      "\<forall>i<length (v_data ?A). m ! i = (if i < ?na then v_data ?B ! i else v_data ?A ! i)"
      by auto
    have d1: "?na + (?nb - ?na) \<le> length (v_data ?B)" and d2: "?na + (?nb - ?na) \<le> length m"
      using grow(2) szb capb m(2) by simp_all
    have d3: "\<forall>j<?nb - ?na. \<exists>x. v_data ?B ! (?na + j) = Some x \<and> \<not> copy_ctor_throws T x"
    proof (intro allI impI)
      fix j assume j: "j < ?nb - ?na"
      then have jb: "?na + j < ?nb" by simp
      have "drop ?na (elems ?B) ! j \<in> set (drop ?na (elems ?B))"
        using j leb by (intro nth_mem) simp
      moreover have "drop ?na (elems ?B) ! j = elems ?B ! (?na + j)" using jb leb by simp
      ultimately have "\<not> copy_ctor_throws T (elems ?B ! (?na + j))"
        using ctor grow(1) by (simp add: copy_constructed_def)
      with liveb[OF jb] show "\<exists>x. v_data ?B ! (?na + j) = Some x \<and> \<not> copy_ctor_throws T x"
        by simp
    qed
    from uninitialized_loop_Returned[OF d1 d2 d3, of "\<lambda>x. x" ?na] obtain src' m' where m':
      "uninitialized_loop (copy_ctor_throws T) (\<lambda>x. x) (v_data ?B) ?na m ?na ?na (?nb - ?na)
         = Returned (src', m')"
      "length m' = length (v_data ?A)"
      "\<forall>i<length (v_data ?A). m' ! i =
         (if ?na \<le> i \<and> i < ?na + (?nb - ?na) then v_data ?B ! (?na + (i - ?na)) else m ! i)"
      using m(2) by auto
    let ?v = "?A\<lparr>v_data := m', v_size := ?nb\<rparr>"
    have run: "assign_copy T st a b = Returned (st(a := ?v))"
      using ab grow m(1) m'(1) by (simp add: assign_copy_def std_copy_def uninitialized_copy_n_def)
    have lay: "wf_Vector ?v \<and> elems ?v = elems ?B"
    proof (rule copied_layout[OF wfb])
      show "v_size ?v = ?nb" by simp
      show "?nb \<le> length (v_data ?v)" using m'(2) capb by simp
    next
      fix i assume "i < length (v_data ?v)"
      then have i: "i < length (v_data ?A)" using m'(2) by simp
      consider "i < ?na" | "?na \<le> i" "i < ?nb" | "?nb \<le> i" by linarith
      then show "v_data ?v ! i = (if i < ?nb then v_data ?B ! i else None)"
      proof cases
        case 1
        then show ?thesis using m'(3) m(3) i grow(2) by simp
      next
        case 2
        then show ?thesis using m'(3) i by simp
      next
        case 3
        then have "?na \<le> i" using grow(2) by simp
        from wf_Vector_dead[OF wfa this i] 3 show ?thesis using m'(3) m(3) i grow(2) by simp
      qed
    qed
    show ?thesis using run lay m'(2) grow(1)
      by (intro exI[of _ ?v]) (simp add: Capacity_def)
  next
    case shrink
    have capb: "?nb \<le> length (v_data ?A)" using shrink(1) by (simp add: Capacity_def)
    have c1: "0 + ?nb \<le> length (v_data ?B)" and c2: "0 + ?nb \<le> length (v_data ?A)"
      using szb capb by simp_all
    have c3: "\<forall>j<?nb. \<exists>x. v_data ?B ! (0 + j) = Some x \<and> \<not> copy_assign_throws T x"
    proof (intro allI impI)
      fix j assume j: "j < ?nb"
      have "take ?na (elems ?B) = elems ?B" using shrink(2) leb by simp
      moreover have "elems ?B ! j \<in> set (elems ?B)" using j leb by (intro nth_mem) simp
      ultimately have "\<not> copy_assign_throws T (elems ?B ! j)"
        using asg shrink(1) by (simp add: copy_assigned_def)
      with liveb[OF j] show "\<exists>x. v_data ?B ! (0 + j) = Some x \<and> \<not> copy_assign_throws T x"
        by simp
    qed
    have c4: "\<forall>j<?nb. v_data ?A ! (0 + j) \<noteq> None"
      using wf_Vector_live[OF wfa] shrink(2) by simp
    from copy_loop_Returned[OF c1 c2 c3 c4] obtain m where m:
      "copy_loop T (v_data ?B) 0 (v_data ?A) 0 ?nb = Returned m"
      "length m = length (v_data ?A)"
      "\<forall>i<length (v_data ?A). m ! i = (if i < ?nb then v_data ?B ! i else v_data ?A ! i)"
      by auto
    let ?v = "?A\<lparr>v_data := destroy_n m ?nb (?na - ?nb), v_size := ?nb\<rparr>"
    have run: "assign_copy T st a b = Returned (st(a := ?v))"
      using ab shrink m(1) by (simp add: assign_copy_def std_copy_def)
    have lay: "wf_Vector ?v \<and> elems ?v = elems ?B"
    proof (rule copied_layout[OF wfb])
      show "v_size ?v = ?nb" by simp
      show "?nb \<le> length (v_data ?v)" using m(2) capb by (simp add: length_destroy_n)
    next
      fix i assume "i < length (v_data ?v)"
      then have i: "i < length (v_data ?A)" using m(2) by (simp add: length_destroy_n)
      consider "i < ?nb" | "?nb \<le> i" "i < ?na" | "?na \<le> i" by linarith
      then show "v_data ?v ! i = (if i < ?nb then v_data ?B ! i else None)"
      proof cases
        case 1
        then show ?thesis using m(2,3) i by (simp add: nth_destroy_n)
      next
        case 2
        then show ?thesis using m(2,3) i by (simp add: nth_destroy_n)
      next
        case 3
        then have "\<not> i < ?nb" using shrink(2) by simp
        with wf_Vector_dead[OF wfa 3 i] show ?thesis using m(2,3) i by (simp add: nth_destroy_n)
      qed
    qed
    show ?thesis using run lay m(2) shrink(1)
      by (intro exI[of _ ?v]) (simp add: Capacity_def length_destroy_n)
  qed
qed


text \<open>
  C6. For two different vectors that satisfy the invariant, \<open>a = b\<close> returns when the
  element operations it runs do not throw, with \<open>b\<close> and every other object unchanged
  and \<open>a\<close> holding the size and the elements of \<open>b\<close> in order. When the capacity of \<open>a\<close>
  is less than the size of \<open>b\<close>, every element of \<open>b\<close> is copy-constructed into a buffer
  of exactly that size, which \<open>a\<close> takes over; and if one of these constructors throws,
  the exception leaves with the store as it was. Otherwise \<open>a\<close> keeps its buffer: the
  first \<open>min(a.size, b.size)\<close> elements are copy-assigned, the rest of \<open>b\<close> is
  copy-constructed, and the slots of \<open>a\<close> beyond the size of \<open>b\<close> hold no live object.
\<close>

theorem copy_assignment_copies:
  assumes "a \<noteq> b" and "wf_Vector (st a)" and "wf_Vector (st b)"
  shows "((\<forall>y\<in>set (copy_constructed st a b). \<not> copy_ctor_throws T y) \<and>
          (\<forall>y\<in>set (copy_assigned st a b). \<not> copy_assign_throws T y) \<longrightarrow>
            (\<exists>st'. assign_copy T st a b = Returned st' \<and> st' b = st b \<and>
               (\<forall>c. c \<noteq> a \<longrightarrow> st' c = st c) \<and>
               Size (st' a) = Size (st b) \<and> elems (st' a) = elems (st b) \<and>
               wf_Vector (st' a) \<and>
               Capacity (st' a) = (if Capacity (st a) < Size (st b) then Size (st b)
                                   else Capacity (st a)))) \<and>
         (Capacity (st a) < Size (st b) \<and> (\<exists>y\<in>set (elems (st b)). copy_ctor_throws T y) \<longrightarrow>
            assign_copy T st a b = Thrown st)"
proof (intro conjI impI)
  assume "(\<forall>y\<in>set (copy_constructed st a b). \<not> copy_ctor_throws T y) \<and>
          (\<forall>y\<in>set (copy_assigned st a b). \<not> copy_assign_throws T y)"
  then have h: "\<forall>y\<in>set (copy_constructed st a b). \<not> copy_ctor_throws T y"
    "\<forall>y\<in>set (copy_assigned st a b). \<not> copy_assign_throws T y" by simp_all
  from assign_copy_Returned[OF assms h] obtain v' where v':
    "assign_copy T st a b = Returned (st(a := v'))" "v_size v' = v_size (st b)"
    "elems v' = elems (st b)" "wf_Vector v'"
    "Capacity v' = (if Capacity (st a) < v_size (st b) then v_size (st b) else Capacity (st a))"
    by blast
  show "\<exists>st'. assign_copy T st a b = Returned st' \<and> st' b = st b \<and>
               (\<forall>c. c \<noteq> a \<longrightarrow> st' c = st c) \<and>
               Size (st' a) = Size (st b) \<and> elems (st' a) = elems (st b) \<and>
               wf_Vector (st' a) \<and>
               Capacity (st' a) = (if Capacity (st a) < Size (st b) then Size (st b)
                                   else Capacity (st a))"
    using v' assms(1) by (intro exI[of _ "st(a := v')"]) (simp add: Size_def)
next
  assume "Capacity (st a) < Size (st b) \<and> (\<exists>y\<in>set (elems (st b)). copy_ctor_throws T y)"
  then have c: "Capacity (st a) < v_size (st b)"
    and t: "\<exists>y\<in>set (elems (st b)). copy_ctor_throws T y" by (simp_all add: Size_def)
  from Vector_copy_Thrown[OF assms(3) t] show "assign_copy T st a b = Thrown st"
    using assms(1) c by (simp add: assign_copy_def)
qed

theorem copy_assignment_copies_witness:
  "(\<exists>st'. assign_copy sturdy
       ((\<lambda>i. Vector_default)
          (0 := \<lparr>v_data = [Some 1, Some 2, None, None], v_size = 2\<rparr>,
           1 := \<lparr>v_data = [Some 4, Some 5, Some 6], v_size = 3\<rparr>)) 0 1 = Returned st' \<and>
     elems (st' 0) = [4, 5, 6] \<and> Capacity (st' 0) = 4 \<and>
     st' 1 = \<lparr>v_data = [Some 4, Some 5, Some 6], v_size = 3\<rparr>) \<and>
   assign_copy fragile
       ((\<lambda>i. Vector_default)
          (0 := \<lparr>v_data = [Some 1], v_size = 1\<rparr>,
           1 := \<lparr>v_data = [Some 3, Some 7], v_size = 2\<rparr>)) 0 1
     = Thrown ((\<lambda>i. Vector_default)
          (0 := \<lparr>v_data = [Some 1], v_size = 1\<rparr>,
           1 := \<lparr>v_data = [Some 3, Some 7], v_size = 2\<rparr>))"
proof -
  let ?s = "(\<lambda>i::nat. Vector_default :: nat Vector)
          (0 := \<lparr>v_data = [Some 1, Some 2, None, None], v_size = 2\<rparr>,
           1 := \<lparr>v_data = [Some 4, Some 5, Some 6], v_size = 3\<rparr>)"
  let ?t = "(\<lambda>i::nat. Vector_default :: nat Vector)
          (0 := \<lparr>v_data = [Some 1], v_size = 1\<rparr>,
           1 := \<lparr>v_data = [Some 3, Some 7], v_size = 2\<rparr>)"
  have n: "(0::nat) \<noteq> 1" by simp
  have s0: "wf_Vector (?s 0)" and s1: "wf_Vector (?s 1)"
    by (simp_all add: wf_Vector_def)
  have t0: "wf_Vector (?t 0)" and t1: "wf_Vector (?t 1)"
    by (simp_all add: wf_Vector_def)
  have hs: "(\<forall>y\<in>set (copy_constructed ?s 0 1). \<not> copy_ctor_throws sturdy y) \<and>
            (\<forall>y\<in>set (copy_assigned ?s 0 1). \<not> copy_assign_throws sturdy y)"
    by (simp add: sturdy_def)
  have ht: "Capacity (?t 0) < Size (?t 1) \<and> (\<exists>y\<in>set (elems (?t 1)). copy_ctor_throws fragile y)"
    by (simp add: Capacity_def Size_def elems_def fragile_def)
  from copy_assignment_copies [where st = ?s and T = sturdy, OF n s0 s1] hs
  obtain st' where st': "assign_copy sturdy ?s 0 1 = Returned st'" "st' 1 = ?s 1"
    "elems (st' 0) = elems (?s 1)"
    "Capacity (st' 0) = (if Capacity (?s 0) < Size (?s 1) then Size (?s 1) else Capacity (?s 0))"
    by blast
  have a: "\<exists>st'. assign_copy sturdy ?s 0 1 = Returned st' \<and>
     elems (st' 0) = [4, 5, 6] \<and> Capacity (st' 0) = 4 \<and>
     st' 1 = \<lparr>v_data = [Some 4, Some 5, Some 6], v_size = 3\<rparr>"
    using st' by (intro exI[of _ st']) (simp add: elems_def Capacity_def Size_def)
  from copy_assignment_copies [where st = ?t and T = fragile, OF n t0 t1] ht
  have b: "assign_copy fragile ?t 0 1 = Thrown ?t" by blast
  show ?thesis using a b by (intro conjI) assumption+
qed

section \<open>Calls within the preconditions are defined\<close>

text \<open>
  On vectors that satisfy the invariant, with positions in range, no operation runs
  into a failed \<open>assert\<close>, a dead slot or a slot outside its buffer: every call returns or
  throws. So the statements about the outcomes of these calls are not empty.
\<close>


lemma uninitialized_loop_no_Violation:
  assumes "s + k \<le> length src" and "d + k \<le> length dst"
    and "\<forall>j<k. src ! (s + j) \<noteq> None"
  shows "uninitialized_loop thr leave src s dst d0 d k \<noteq> Violation"
  using assms
proof (induction k arbitrary: src s dst d)
  case 0
  then show ?case by simp
next
  case (Suc k)
  from Suc.prems(3) obtain x where x: "src ! s = Some x"
    by (metis add.right_neutral zero_less_Suc not_Some_eq)
  let ?src = "src[s := Some (leave x)]"
  let ?dst = "dst[d := Some x]"
  have p1: "Suc s + k \<le> length ?src" and p2: "Suc d + k \<le> length ?dst"
    using Suc.prems(1,2) by simp_all
  have p3: "\<forall>i<k. ?src ! (Suc s + i) \<noteq> None"
  proof (intro allI impI)
    fix i assume "i < k"
    then have "src ! (s + Suc i) \<noteq> None" using Suc.prems(3) by (meson Suc_less_eq)
    then show "?src ! (Suc s + i) \<noteq> None" by simp
  qed
  from Suc.IH[OF p1 p2 p3] show ?case using x Suc.prems(1,2) by (simp add: slot_at_def)
qed

lemma uninitialized_loop_src_above:
  "uninitialized_loop thr leave src s dst d0 d k = Returned (src', dst')
   \<Longrightarrow> \<forall>i. s + k \<le> i \<longrightarrow> src' ! i = src ! i"
proof (induction k arbitrary: src s dst d)
  case 0
  then show ?case by simp
next
  case (Suc k)
  then show ?case
    by (fastforce split: option.splits if_splits)
qed

lemma CopyOrMove_no_Violation:
  assumes "s + k \<le> length src" and "d + k \<le> length dst"
    and "\<forall>j<k. src ! (s + j) \<noteq> None"
  shows "CopyOrMove T src s dst d k \<noteq> Violation"
  using uninitialized_loop_no_Violation[OF assms]
  by (simp add: CopyOrMove_def uninitialized_move_n_def uninitialized_copy_n_def)

lemma CopyOrMove_src_above:
  "CopyOrMove T src s dst d k = Returned (src', dst')
   \<Longrightarrow> \<forall>i. s + k \<le> i \<longrightarrow> src' ! i = src ! i"
  by (auto simp: CopyOrMove_def uninitialized_move_n_def uninitialized_copy_n_def
      split: if_splits dest!: uninitialized_loop_src_above)

lemma uninitialized_construct_loop_no_Violation:
  "d + k \<le> length dst \<Longrightarrow> uninitialized_construct_loop c dst d0 d k \<noteq> Violation"
proof (induction k arbitrary: dst d)
  case 0
  then show ?case by simp
next
  case (Suc k)
  have "Suc d + k \<le> length (dst[d := Some x])" for x using Suc.prems by simp
  from Suc.IH[OF this] show ?case using Suc.prems by (cases c) auto
qed

lemma copy_loop_no_Violation:
  assumes "s + k \<le> length src" and "d + k \<le> length dst"
    and "\<forall>j<k. src ! (s + j) \<noteq> None" and "\<forall>j<k. dst ! (d + j) \<noteq> None"
  shows "copy_loop T src s dst d k \<noteq> Violation"
  using assms
proof (induction k arbitrary: s dst d)
  case 0
  then show ?case by simp
next
  case (Suc k)
  from Suc.prems(3) obtain x where x: "src ! s = Some x"
    by (metis add.right_neutral zero_less_Suc not_Some_eq)
  from Suc.prems(4) obtain y where y: "dst ! d = Some y"
    by (metis add.right_neutral zero_less_Suc not_Some_eq)
  let ?dst = "dst[d := Some x]"
  have p1: "Suc s + k \<le> length src" and p2: "Suc d + k \<le> length ?dst"
    using Suc.prems(1,2) by simp_all
  have p3: "\<forall>j<k. src ! (Suc s + j) \<noteq> None"
    using Suc.prems(3) by (metis Suc_less_eq add_Suc_shift)
  have p4: "\<forall>j<k. ?dst ! (Suc d + j) \<noteq> None"
  proof (intro allI impI)
    fix j assume "j < k"
    then have "dst ! (d + Suc j) \<noteq> None" using Suc.prems(4) by (meson Suc_less_eq)
    then show "?dst ! (Suc d + j) \<noteq> None" by simp
  qed
  from Suc.IH[OF p1 p2 p3 p4] show ?case using x y Suc.prems(1,2) by (simp add: slot_at_def)
qed

lemma move_loop_no_Violation:
  assumes "Suc d + k \<le> length m" and "\<forall>j\<le>k. m ! (d + j) \<noteq> None"
  shows "move_loop T m (Suc d) d k \<noteq> Violation"
  using assms
proof (induction k arbitrary: m d)
  case 0
  then show ?case by simp
next
  case (Suc k)
  have "Suc 0 \<le> Suc k" by simp
  with Suc.prems(2) have "m ! (d + Suc 0) \<noteq> None" by blast
  then obtain x where x: "m ! Suc d = Some x" by auto
  from Suc.prems(2) obtain y where y: "m ! d = Some y"
    by (metis add.right_neutral le0 not_Some_eq)
  let ?m = "m[d := Some x, Suc d := Some (moved_from T x)]"
  have p1: "Suc (Suc d) + k \<le> length ?m" using Suc.prems(1) by simp
  have p2: "\<forall>j\<le>k. ?m ! (Suc d + j) \<noteq> None"
  proof (intro allI impI)
    fix j assume j: "j \<le> k"
    show "?m ! (Suc d + j) \<noteq> None"
    proof (cases "j = 0")
      case True
      then show ?thesis using Suc.prems(1) by simp
    next
      case False
      have "Suc j \<le> Suc k" using j by simp
      then have "m ! (d + Suc j) \<noteq> None" using Suc.prems(2) by blast
      then show ?thesis using False by simp
    qed
  qed
  from Suc.IH[OF p1 p2] show ?case using x y Suc.prems(1) by (simp add: slot_at_def)
qed

lemma move_backward_loop_no_Violation:
  assumes "e < length m" and "k \<le> e" and "\<forall>j\<le>k. m ! (e - j) \<noteq> None"
  shows "move_backward_loop T m e (Suc e) k \<noteq> Violation"
  using assms
proof (induction k arbitrary: m e)
  case 0
  then show ?case by simp
next
  case (Suc k)
  from Suc.prems(2) obtain e' where e: "e = Suc e'" by (cases e) auto
  have "Suc 0 \<le> Suc k" by simp
  with Suc.prems(3) have "m ! (e - Suc 0) \<noteq> None" by blast
  then obtain x where x: "m ! e' = Some x" using e by auto
  from Suc.prems(3) obtain y where y: "m ! e = Some y"
    by (metis diff_zero le0 not_Some_eq)
  let ?m = "m[e := Some x, e' := Some (moved_from T x)]"
  have p1: "e' < length ?m" using Suc.prems(1) e by simp
  have p2: "k \<le> e'" using Suc.prems(2) e by simp
  have p3: "\<forall>j\<le>k. ?m ! (e' - j) \<noteq> None"
  proof (intro allI impI)
    fix j assume j: "j \<le> k"
    show "?m ! (e' - j) \<noteq> None"
    proof (cases "j = 0")
      case True
      then show ?thesis using Suc.prems(1) e by simp
    next
      case False
      have "Suc j \<le> Suc k" using j by simp
      then have "m ! (e - Suc j) \<noteq> None" using Suc.prems(3) by blast
      then show ?thesis using False e p2 j by simp
    qed
  qed
  from Suc.IH[OF p1 p2 p3] show ?case using x y Suc.prems(1) e by (simp add: slot_at_def)
qed

lemma move_backward_loop_keeps_live:
  assumes "move_backward_loop T m e d k = Returned m'" and "i < length m" and "m ! i \<noteq> None"
  shows "m' ! i \<noteq> None"
  using assms
proof (induction k arbitrary: m e d)
  case 0
  then show ?case by simp
next
  case (Suc k)
  from Suc.prems(1) obtain x y where xy: "e \<noteq> 0" "d \<noteq> 0" "slot_at m (e - 1) = Some x"
    "slot_at m (d - 1) = Some y" "\<not> move_assign_throws T x"
    by (auto split: option.splits if_splits)
  let ?m = "m[d - 1 := Some x, e - 1 := Some (moved_from T x)]"
  have run: "move_backward_loop T ?m (e - 1) (d - 1) k = Returned m'"
    using Suc.prems(1) xy by simp
  have "i < length ?m" using Suc.prems(2) by simp
  moreover have "?m ! i \<noteq> None"
  proof (cases "i = e - 1")
    case True
    then show ?thesis using Suc.prems(2) by simp
  next
    case False
    then show ?thesis using Suc.prems(2,3) by (cases "i = d - 1") simp_all
  qed
  ultimately show ?case using Suc.IH[OF run] by blast
qed

lemma wf_Vector_live_slots: "wf_Vector v \<Longrightarrow> \<forall>j<v_size v. v_data v ! (0 + j) \<noteq> None"
  using wf_Vector_live[of v] by simp

lemma Vector_sized_defined: "Vector_sized T n \<noteq> Violation"
proof -
  have "0 + n \<le> length (RawMemory_new n :: 'a RawMemory)" by (simp add: RawMemory_new_def)
  from uninitialized_construct_loop_no_Violation[OF this, of "default_ctor T" 0]
  show ?thesis
    by (simp add: Vector_sized_def uninitialized_value_construct_n_def split: outcome.splits)
qed

lemma Vector_copy_defined:
  assumes "wf_Vector v"
  shows "Vector_copy T v \<noteq> Violation"
proof -
  have "0 + v_size v \<le> length (v_data v)"
    and "0 + v_size v \<le> length (RawMemory_new (v_size v) :: 'a RawMemory)"
    using wf_Vector_size[OF assms] by (simp_all add: RawMemory_new_def)
  from uninitialized_loop_no_Violation[OF this wf_Vector_live_slots[OF assms],
      of "copy_ctor_throws T" "\<lambda>x. x" 0]
  show ?thesis
    by (simp add: Vector_copy_def uninitialized_copy_n_def split: outcome.splits prod.splits)
qed

lemma Reserve_defined:
  assumes "wf_Vector v"
  shows "Reserve T n v \<noteq> Violation"
proof (cases "n \<le> Capacity v")
  case True
  then show ?thesis by (simp add: Reserve_def)
next
  case False
  then have "0 + v_size v \<le> length (v_data v)"
    and "0 + v_size v \<le> length (RawMemory_new n :: 'a RawMemory)"
    using wf_Vector_size[OF assms] by (simp_all add: RawMemory_new_def Capacity_def)
  from CopyOrMove_no_Violation[OF this wf_Vector_live_slots[OF assms], of T]
  show ?thesis using False
    by (simp add: Reserve_def split: outcome.splits prod.splits)
qed

lemma Resize_defined:
  assumes "wf_Vector v"
  shows "Resize T n v \<noteq> Violation"
proof -
  have sz: "v_size v \<le> length (v_data v)" using assms by (rule wf_Vector_size)
  consider "n < Capacity v" | "Capacity v < n" | "n = Capacity v" by linarith
  then show ?thesis
  proof cases
    case 1
    then have "v_size v + (n - v_size v) \<le> length (v_data v)" if "v_size v < n"
      using that by (simp add: Capacity_def)
    from uninitialized_construct_loop_no_Violation[OF this, of "default_ctor T" "v_size v"]
    show ?thesis using 1
      by (auto simp: Resize_def uninitialized_default_construct_n_def split: outcome.splits)
  next
    case 2
    show ?thesis
    proof (cases "Reserve T n v")
      case (Returned v1)
      from Reserve_Returned_capacity[OF this 2] sz 2
      have "v_size v1 + (n - v_size v1) \<le> length (v_data v1)" by (simp add: Capacity_def)
      from uninitialized_construct_loop_no_Violation[OF this, of "default_ctor T" "v_size v1"]
      show ?thesis using 2 Returned
        by (auto simp: Resize_def uninitialized_default_construct_n_def split: outcome.splits)
    next
      case (Thrown v1)
      then show ?thesis using 2 by (simp add: Resize_def)
    next
      case Violation
      then show ?thesis using Reserve_defined[OF assms, of T n] by simp
    qed
  next
    case 3
    then show ?thesis by (simp add: Resize_def)
  qed
qed

lemma PopBack_defined: "0 < v_size v \<Longrightarrow> PopBack v \<noteq> Violation"
  by (simp add: PopBack_def)

lemma Erase_defined:
  assumes "wf_Vector v" and "p < v_size v"
  shows "Erase T p v \<noteq> Violation"
proof -
  have sz: "v_size v \<le> length (v_data v)" using assms(1) by (rule wf_Vector_size)
  have c1: "Suc p + (v_size v - Suc p) \<le> length (v_data v)" using assms(2) sz by simp
  have c2: "\<forall>j\<le>v_size v - Suc p. v_data v ! (p + j) \<noteq> None"
  proof (intro allI impI)
    fix j assume "j \<le> v_size v - Suc p"
    then have "p + j < v_size v" using assms(2) by arith
    from wf_Vector_live[OF assms(1) this] show "v_data v ! (p + j) \<noteq> None" by simp
  qed
  from move_loop_no_Violation[OF c1 c2, of T] show ?thesis using assms(2)
    by (simp add: Erase_def std_move_def split: outcome.splits)
qed

lemma Emplace_defined:
  assumes wf: "wf_Vector v" and p: "p \<le> v_size v"
  shows "Emplace T p arg v \<noteq> Violation"
proof -
  let ?n = "v_size v" and ?d = "v_data v"
  have sz: "?n \<le> length ?d" using wf by (rule wf_Vector_size)
  have live: "\<And>i. i < ?n \<Longrightarrow> ?d ! i \<noteq> None" using wf_Vector_live[OF wf] by simp
  consider (none) "arg = None" | (full) x where "arg = Some x" "?n = Capacity v"
    | (append) x where "arg = Some x" "?n < Capacity v" "p = ?n"
    | (middle) x where "arg = Some x" "?n < Capacity v" "p < ?n"
    using sz p unfolding Capacity_def by (cases arg) (auto, linarith)
  then show ?thesis
  proof cases
    case none
    then show ?thesis using p sz
      by (auto simp: Emplace_def EmplaceWithAllocate_def EmplaceWithoutAllocate_def
          EmplaceWithoutAllocate_try_def Capacity_def)
  next
    case full
    show ?thesis
    proof (cases "?n = 0")
      case True
      then show ?thesis using full by (simp add: Emplace_def EmplaceWithAllocate_def)
    next
      case False
      have len: "length ?d = ?n" using full(2) by (simp add: Capacity_def)
      let ?temp = "(RawMemory_new (Capacity v * 2))[p := Some x] :: 'a RawMemory"
      have lt: "length ?temp = ?n * 2" using len by (simp add: RawMemory_new_def Capacity_def)
      have a1: "0 + p \<le> length ?d" "0 + p \<le> length ?temp" using p len lt by simp_all
      have a3: "\<forall>j<p. ?d ! (0 + j) \<noteq> None" using live p by simp
      note nv1 = CopyOrMove_no_Violation[OF a1 a3, of T]
      have second: "CopyOrMove T old p temp (p + 1) (?n - p) \<noteq> Violation"
        if r: "CopyOrMove T ?d 0 ?temp 0 p = Returned (old, temp)" for old temp
      proof -
        from CopyOrMove_lengthR[OF r] have l: "length old = ?n" "length temp = ?n * 2"
          using len lt by simp_all
        from CopyOrMove_src_above[OF r] have ab: "\<forall>i. p \<le> i \<longrightarrow> old ! i = ?d ! i" by simp
        have b1: "p + (?n - p) \<le> length old" "(p + 1) + (?n - p) \<le> length temp"
          using p l False by simp_all
        have b3: "\<forall>j<?n - p. old ! (p + j) \<noteq> None" using ab live by simp
        from CopyOrMove_no_Violation[OF b1 b3] show ?thesis .
      qed
      show ?thesis using full False p len nv1 second
        by (auto simp: Emplace_def EmplaceWithAllocate_def Capacity_def
            split: outcome.splits prod.splits)
    qed
  next
    case append
    then show ?thesis
      by (simp add: Emplace_def EmplaceWithoutAllocate_def)
  next
    case middle
    obtain e where e: "?n = Suc e" using middle(3) by (cases ?n) auto
    have cap: "?n < length ?d" using middle(2) by (simp add: Capacity_def)
    obtain y where y: "?d ! e = Some y" using live[of e] e by auto
    let ?m1 = "?d[?n := Some y, e := Some (moved_from T y)]"
    have pe: "p \<le> e" using middle(3) e by simp
    have c1: "e < length ?m1" using cap e by simp
    have c2: "e - p \<le> e" by simp
    have c3: "\<forall>j\<le>e - p. ?m1 ! (e - j) \<noteq> None"
    proof (intro allI impI)
      fix j assume "j \<le> e - p"
      show "?m1 ! (e - j) \<noteq> None"
      proof (cases "j = 0")
        case True
        then show ?thesis using c1 by simp
      next
        case False
        then have "e - j < e" "e - j < ?n" using pe \<open>j \<le> e - p\<close> e by arith+
        then show ?thesis using live[of "e - j"] e by simp
      qed
    qed
    note nv = move_backward_loop_no_Violation[OF c1 c2 c3, of T]
    have after: "m ! p \<noteq> None"
      if r: "move_backward_loop T ?m1 e (Suc e) (e - p) = Returned m" for m
    proof -
      have "p < length ?m1" using cap middle(3) by simp
      moreover have "?m1 ! p \<noteq> None"
      proof (cases "p = e")
        case True
        then show ?thesis using cap e by simp
      next
        case False
        then show ?thesis using live[of p] middle(3) e by simp
      qed
      ultimately show ?thesis using move_backward_loop_keeps_live[OF r] by blast
    qed
    have lenm: "length m = length ?d"
      if r: "move_backward_loop T ?m1 e (Suc e) (e - p) = Returned m" for m
      using move_backward_loop_lengthR[OF r] by simp
    show ?thesis using middle e cap y pe nv after lenm
      by (auto simp: Emplace_def EmplaceWithoutAllocate_def EmplaceWithoutAllocate_try_def
          Capacity_def slot_at_def std_move_backward_def split: outcome.splits)
  qed
qed

lemma assign_copy_defined:
  assumes wfa: "wf_Vector (st a)" and wfb: "wf_Vector (st b)"
  shows "assign_copy T st a b \<noteq> Violation"
proof (cases "a = b")
  case True
  then show ?thesis by (simp add: assign_copy_def)
next
  case False
  let ?A = "st a" and ?B = "st b"
  let ?na = "v_size ?A" and ?nb = "v_size ?B"
  have sza: "?na \<le> length (v_data ?A)" using wfa by (rule wf_Vector_size)
  have szb: "?nb \<le> length (v_data ?B)" using wfb by (rule wf_Vector_size)
  have livea: "\<And>i. i < ?na \<Longrightarrow> v_data ?A ! i \<noteq> None" using wf_Vector_live[OF wfa] by simp
  have liveb: "\<And>i. i < ?nb \<Longrightarrow> v_data ?B ! i \<noteq> None" using wf_Vector_live[OF wfb] by simp
  consider (swap) "Capacity ?A < ?nb"
    | (grow) "\<not> Capacity ?A < ?nb" "?na < ?nb"
    | (shrink) "\<not> Capacity ?A < ?nb" "\<not> ?na < ?nb" by blast
  then show ?thesis
  proof cases
    case swap
    then show ?thesis using False Vector_copy_defined[OF wfb, of T]
      by (simp add: assign_copy_def split: outcome.splits)
  next
    case grow
    have capb: "?nb \<le> length (v_data ?A)" using grow(1) by (simp add: Capacity_def)
    have c1: "0 + ?na \<le> length (v_data ?B)" and c2: "0 + ?na \<le> length (v_data ?A)"
      using grow(2) szb sza by simp_all
    have c3: "\<forall>j<?na. v_data ?B ! (0 + j) \<noteq> None" using liveb grow(2) by simp
    have c4: "\<forall>j<?na. v_data ?A ! (0 + j) \<noteq> None" using livea by simp
    note nv1 = copy_loop_no_Violation[OF c1 c2 c3 c4, of T]
    have second: "uninitialized_loop (copy_ctor_throws T) (\<lambda>x. x) (v_data ?B) ?na m ?na ?na
          (?nb - ?na) \<noteq> Violation"
      if r: "copy_loop T (v_data ?B) 0 (v_data ?A) 0 ?na = Returned m" for m
    proof -
      have l: "length m = length (v_data ?A)" using copy_loop_lengthR[OF r] .
      have d1: "?na + (?nb - ?na) \<le> length (v_data ?B)" and d2: "?na + (?nb - ?na) \<le> length m"
        using grow(2) szb capb l by simp_all
      have d3: "\<forall>j<?nb - ?na. v_data ?B ! (?na + j) \<noteq> None" using liveb by simp
      from uninitialized_loop_no_Violation[OF d1 d2 d3] show ?thesis .
    qed
    show ?thesis using False grow nv1 second
      by (auto simp: assign_copy_def std_copy_def uninitialized_copy_n_def
          split: outcome.splits prod.splits)
  next
    case shrink
    have capb: "?nb \<le> length (v_data ?A)" using shrink(1) by (simp add: Capacity_def)
    have c1: "0 + ?nb \<le> length (v_data ?B)" and c2: "0 + ?nb \<le> length (v_data ?A)"
      using szb capb by simp_all
    have c3: "\<forall>j<?nb. v_data ?B ! (0 + j) \<noteq> None" using liveb by simp
    have c4: "\<forall>j<?nb. v_data ?A ! (0 + j) \<noteq> None" using livea shrink(2) by simp
    from copy_loop_no_Violation[OF c1 c2 c3 c4, of T] show ?thesis using False shrink
      by (auto simp: assign_copy_def std_copy_def split: outcome.splits)
  qed
qed

end
